theory Spec2Isabelle
  imports Main
begin

section \<open>Data model of \<^verbatim>\<open>src/index.tsx\<close>\<close>

text \<open>
  The interfaces \<^verbatim>\<open>Source\<close>, \<^verbatim>\<open>Work\<close> and \<^verbatim>\<open>Message\<close> (lines 13-27) and the
  library types the handler touches. A string is a list of code units. An optional
  field is an \<open>option\<close>; \<open>None\<close> is JavaScript's \<^verbatim>\<open>undefined\<close> (or \<^verbatim>\<open>null\<close>).
\<close>

datatype Role = User | Model

text \<open>
  \<^verbatim>\<open>GroundingChunk.web\<close> of the model library: every field is optional there, which is
  why line 354 tests both the object and its \<^verbatim>\<open>uri\<close>. The type guard of line 354
  narrows such an object to \<^verbatim>\<open>Source\<close> without copying it, so a source is the same record.
\<close>

record Web =
  uri :: "string option"
  title :: "string option"

type_synonym Source = Web

record GroundingChunk =
  web :: "Web option"

text \<open>
  \<^verbatim>\<open>res.text\<close> and \<^verbatim>\<open>chunk.text\<close> of the model library are \<^verbatim>\<open>string | undefined\<close>: a
  response or a chunk may carry no text part. Inside a template literal, and on the right
  of \<^verbatim>\<open>+=\<close> on a string, \<^verbatim>\<open>undefined\<close> becomes the word \<open>undefined\<close>.
\<close>

type_synonym Text = "string option"

definition js_string :: "Text \<Rightarrow> string" where
  "js_string t = (case t of None \<Rightarrow> ''undefined'' | Some s \<Rightarrow> s)"

text \<open>The answers are stored as they come (line 290, line 313, lines 357-360).\<close>

record Work =
  initialResponses :: "Text list"
  refinedResponses :: "Text list"

text \<open>
  A message part is \<^verbatim>\<open>{ text: string }\<close>, so \<open>parts\<close> is the list of the texts.
\<close>

record Message =
  role :: Role
  parts :: "string list"
  msg_image :: "string option"
  sources :: "Source list option"
  work :: "Work option"

text \<open>One chunk of the synthesis stream: \<^verbatim>\<open>chunk.text\<close> and
  \<^verbatim>\<open>chunk.candidates?.[0]?.groundingMetadata?.groundingChunks\<close> (line 340).\<close>

record StreamChunk =
  chunk_text :: Text
  groundingChunks :: "GroundingChunk list option"

section \<open>JavaScript array and string helpers\<close>

text \<open>\<^verbatim>\<open>!!s\<close> for an optional string: false for \<^verbatim>\<open>undefined\<close> and for the empty string.\<close>

definition truthy_str :: "string option \<Rightarrow> bool" where
  "truthy_str s = (case s of None \<Rightarrow> False | Some t \<Rightarrow> t \<noteq> [])"

text \<open>\<^verbatim>\<open>Array.prototype.findIndex\<close>: the first index whose element passes, or \<open>-1\<close>.\<close>

primrec findIndex :: "('a \<Rightarrow> bool) \<Rightarrow> 'a list \<Rightarrow> int" where
  "findIndex P [] = - 1"
| "findIndex P (x # xs) =
     (if P x then 0 else (let r = findIndex P xs in if r < 0 then - 1 else r + 1))"

text \<open>\<^verbatim>\<open>Array.prototype.filter\<close> with the three-argument callback
  \<^verbatim>\<open>(element, index, self)\<close>.\<close>

definition filter_indexed :: "('a \<Rightarrow> nat \<Rightarrow> 'a list \<Rightarrow> bool) \<Rightarrow> 'a list \<Rightarrow> 'a list" where
  "filter_indexed f self =
     map fst (filter (\<lambda>(x, i). f x i self) (zip self [0..<length self]))"

section \<open>Citations (lines 336-355)\<close>

text \<open>The loop's \<^verbatim>\<open>allGroundingChunks.push(...groundingChunks)\<close>, guarded by
  \<^verbatim>\<open>if (groundingChunks)\<close>: an array, even an empty one, is truthy.\<close>

definition push_grounding :: "GroundingChunk list \<Rightarrow> StreamChunk \<Rightarrow> GroundingChunk list" where
  "push_grounding allGroundingChunks chunk =
     (case groundingChunks chunk of
        None \<Rightarrow> allGroundingChunks
      | Some gs \<Rightarrow> allGroundingChunks @ gs)"

text \<open>Line 354: \<^verbatim>\<open>.filter((web) => !!web && !!web.uri)\<close>.\<close>

definition valid_web :: "Web option \<Rightarrow> Web option" where
  "valid_web w =
     (case w of None \<Rightarrow> None
      | Some w' \<Rightarrow> if truthy_str (uri w') then Some w' else None)"

text \<open>Line 355: \<^verbatim>\<open>.filter((web, index, self) => index === self.findIndex(w => w.uri === web.uri))\<close>.\<close>

definition first_by_uri :: "Web list \<Rightarrow> Web list" where
  "first_by_uri webs =
     filter_indexed (\<lambda>w index self. int index = findIndex (\<lambda>w'. uri w' = uri w) self) webs"

text \<open>Lines 354-355 on the list that line 353 has mapped.\<close>

definition sources_of_candidates :: "Web option list \<Rightarrow> Source list" where
  "sources_of_candidates raw = first_by_uri (List.map_filter valid_web raw)"

text \<open>Lines 352-355.\<close>

definition compute_sources :: "GroundingChunk list \<Rightarrow> Source list" where
  "compute_sources allGroundingChunks = sources_of_candidates (map web allGroundingChunks)"

text \<open>What the loop has collected once the whole stream has been consumed.\<close>

definition collected_chunks :: "StreamChunk list \<Rightarrow> GroundingChunk list" where
  "collected_chunks chunks = foldl push_grounding [] chunks"

definition stream_sources :: "StreamChunk list \<Rightarrow> Source list" where
  "stream_sources chunks = compute_sources (collected_chunks chunks)"




section \<open>More helpers: strings and indexed arrays\<close>

text \<open>\<^verbatim>\<open>Array.prototype.map\<close> with the callback \<^verbatim>\<open>(element, index)\<close>.\<close>

definition map_indexed :: "('a \<Rightarrow> nat \<Rightarrow> 'b) \<Rightarrow> 'a list \<Rightarrow> 'b list" where
  "map_indexed f self = map (\<lambda>(x, i). f x i) (zip self [0..<length self])"

text \<open>\<^verbatim>\<open>Array.prototype.join\<close>.\<close>

fun join :: "string \<Rightarrow> string list \<Rightarrow> string" where
  "join sep [] = []"
| "join sep [x] = x"
| "join sep (x # y # ys) = x @ sep @ join sep (y # ys)"

text \<open>A number inside a template literal: its decimal digits.\<close>

definition digit :: "nat \<Rightarrow> char" where
  "digit d = ''0123456789'' ! d"

fun string_of_nat :: "nat \<Rightarrow> string" where
  "string_of_nat n =
     (if n < 10 then [digit n]
      else string_of_nat (n div 10) @ [digit (n mod 10)])"

text \<open>A char is a code unit below 256. \<^verbatim>\<open>String.prototype.trim\<close> strips white space
  and line terminators: tab, line feed, vertical tab, form feed, carriage return, space
  and the no-break space are the ones in this range.\<close>

definition is_space :: "char \<Rightarrow> bool" where
  "is_space c = (of_char c \<in> {9, 10, 11, 12, 13, 32, 160 :: nat})"

definition trim :: "string \<Rightarrow> string" where
  "trim s = rev (dropWhile is_space (rev (dropWhile is_space s)))"

text \<open>\<^verbatim>\<open>String.prototype.split\<close> with a separator of one character, and reading an
  array at an index that may be out of range (\<^verbatim>\<open>undefined\<close> there).\<close>

fun split_on :: "char \<Rightarrow> string \<Rightarrow> string list" where
  "split_on c [] = [[]]"
| "split_on c (x # xs) =
     (if x = c then [] # split_on c xs
      else (case split_on c xs of [] \<Rightarrow> [[x]] | p # ps \<Rightarrow> (x # p) # ps))"

definition nth_opt :: "'a list \<Rightarrow> nat \<Rightarrow> 'a option" where
  "nth_opt xs i = (if i < length xs then Some (xs ! i) else None)"

definition nl :: string where
  "nl = [CHR 0x0A]"

definition quoted :: "string \<Rightarrow> string" where
  "quoted s = CHR 0x22 # s @ [CHR 0x22]"

section \<open>Requests to the model client\<close>

text \<open>
  \<^verbatim>\<open>Part\<close> and \<^verbatim>\<open>Content\<close> of the model library, as the handler builds them: a text
  part, or inline data with its mime type and payload. The three request configurations
  differ in the system instruction only (lines 9-11), so a call is recorded with the
  name of its instruction, whether it streams, and its contents.
\<close>

datatype Part = TextPart string | InlineData string "string option"

record Content =
  c_role :: Role
  c_parts :: "Part list"

datatype SystemInstruction =
  INITIAL_SYSTEM_INSTRUCTION | REFINEMENT_SYSTEM_INSTRUCTION | SYNTHESIZER_SYSTEM_INSTRUCTION

record Call =
  systemInstruction :: SystemInstruction
  streaming :: bool
  contents :: "Content list"

definition NUM_AGENTS :: nat where
  "NUM_AGENTS = 4"

text \<open>A thrown value: an \<^verbatim>\<open>Error\<close> with its message, or anything else (line 374).\<close>

datatype JsError = Error string | Thrown

text \<open>
  The model client is outside the repository. A run sees it as a script: whether the
  constructor of line 253 throws; for the call at index \<open>i\<close> of a stage, the time at
  which its promise settles and how (rejected, or fulfilled with a response, of which the
  handler reads \<^verbatim>\<open>res.text\<close> only); and for
  the streaming call either a rejection of line 324 or the chunks of the stream followed
  by its normal end (\<open>None\<close>) or by a failure.
\<close>

record ModelClient =
  constructor_error :: "JsError option"
  generateContent :: "SystemInstruction \<Rightarrow> nat \<Rightarrow> nat \<times> (JsError + Text)"
  generateContentStream :: "JsError + (StreamChunk list \<times> JsError option)"

section \<open>\<^verbatim>\<open>Promise.all\<close>\<close>

text \<open>
  What an \<^verbatim>\<open>await\<close> observes. \<^verbatim>\<open>Promise.all\<close> keeps an array of values with one slot
  per promise and a count of the promises still missing. Promises settle in the order of
  their completion times. A fulfilment writes its value into the slot of its own index
  and decrements the count, and the joined promise is fulfilled with the array when the
  count reaches zero; the first rejection rejects the joined promise.
\<close>

datatype 'a Await = Pending | Rejected JsError | Fulfilled 'a

definition completion_order :: "nat list \<Rightarrow> nat list" where
  "completion_order ts = sort_key (\<lambda>i. ts ! i) [0..<length ts]"

fun settle :: "(JsError + 'a) list \<Rightarrow> nat list \<Rightarrow> 'a option list \<Rightarrow> nat \<Rightarrow> 'a list Await" where
  "settle outcomes [] vals remaining = Pending"
| "settle outcomes (i # order) vals remaining =
     (case outcomes ! i of
        Inl e \<Rightarrow> Rejected e
      | Inr v \<Rightarrow>
          (let vals' = vals[i := Some v]; remaining' = remaining - 1
           in if remaining' = 0 then Fulfilled (map the vals')
              else settle outcomes order vals' remaining'))"

definition Promise_all :: "(nat \<times> (JsError + 'a)) list \<Rightarrow> 'a list Await" where
  "Promise_all promises =
     (if promises = [] then Fulfilled []
      else settle (map snd promises) (completion_order (map fst promises))
             (replicate (length promises) None) (length promises))"

section \<open>Application state\<close>

text \<open>The browser's \<^verbatim>\<open>File\<close>: its size in bytes, its mime type, and what
  \<^verbatim>\<open>FileReader.readAsDataURL\<close> yields for it (\<^verbatim>\<open>null\<close> when the read fails).\<close>

record File =
  file_size :: nat
  mime_type :: string
  data_url :: "string option"

text \<open>
  The state hooks of \<^verbatim>\<open>App\<close> (lines 173-178; the timer is real time and left out), and
  \<open>issued\<close>, the log of the calls made to the model client so far.
\<close>

record App =
  messages :: "Message list"
  isLoading :: bool
  loadingStatus :: string
  image :: "string option"
  imageFile :: "File option"
  issued :: "Call list"

definition initial_App :: App where
  "initial_App = \<lparr>messages = [], isLoading = False, loadingStatus = [], image = None,
                   imageFile = None, issued = []\<rparr>"

section \<open>The submit handler (lines 237-379)\<close>

text \<open>Lines 219-225. Clearing the file input is the browser's business.\<close>

definition handleRemoveImage :: "App \<Rightarrow> App" where
  "handleRemoveImage a = a\<lparr>image := None, imageFile := None\<rparr>"

text \<open>Line 242: \<^verbatim>\<open>if (!userInput.trim() && !image) return;\<close>.\<close>

definition rejected_input :: "string \<Rightarrow> App \<Rightarrow> bool" where
  "rejected_input userInput a = (trim userInput = [] \<and> \<not> truthy_str (image a))"

text \<open>Line 246; \<^verbatim>\<open>image || undefined\<close> turns an empty string into \<^verbatim>\<open>undefined\<close>.\<close>

definition userMessage :: "string \<Rightarrow> App \<Rightarrow> Message" where
  "userMessage userInput a =
     \<lparr>role = User, parts = [userInput],
      msg_image = (if truthy_str (image a) then image a else None),
      sources = None, work = None\<rparr>"

text \<open>Lines 255-258: \<^verbatim>\<open>currentMessages.slice(0, -1).map(msg => ({role, parts}))\<close>.\<close>

definition mainChatHistory :: "Message list \<Rightarrow> Content list" where
  "mainChatHistory currentMessages =
     map (\<lambda>msg. \<lparr>c_role = role msg, c_parts = map TextPart (parts msg)\<rparr>)
       (butlast currentMessages)"

text \<open>Lines 260-271. \<^verbatim>\<open>image\<close> and \<^verbatim>\<open>imageFile\<close> are the values the handler closed
  over, those of the state at submission.\<close>

definition baseApiParts :: "string \<Rightarrow> App \<Rightarrow> Part list" where
  "baseApiParts userInput a =
     (case (image a, imageFile a) of
        (Some img, Some f) \<Rightarrow>
          if img \<noteq> [] then [InlineData (mime_type f) (nth_opt (split_on CHR '','' img) 1)]
          else []
      | _ \<Rightarrow> [])
     @ (if trim userInput \<noteq> [] then [TextPart userInput] else [])"

text \<open>Lines 277-288: the request of every initial agent.\<close>

definition initial_call :: "Content list \<Rightarrow> Part list \<Rightarrow> Call" where
  "initial_call hist base =
     \<lparr>systemInstruction = INITIAL_SYSTEM_INSTRUCTION, streaming = False,
      contents = hist @ [\<lparr>c_role = User, c_parts = base\<rparr>]\<rparr>"

text \<open>Lines 295-297, for the agent at \<open>index\<close>.\<close>

definition otherAnswers :: "Text list \<Rightarrow> nat \<Rightarrow> Text list" where
  "otherAnswers initialAnswers index = filter_indexed (\<lambda>_ i _. i \<noteq> index) initialAnswers"

definition peer_entry :: "Text \<Rightarrow> nat \<Rightarrow> string" where
  "peer_entry answer i = string_of_nat (i + 1) @ ''. '' @ quoted (js_string answer)"

definition otherAnswersText :: "Text list \<Rightarrow> nat \<Rightarrow> string" where
  "otherAnswersText initialAnswers index =
     join nl (map_indexed peer_entry (otherAnswers initialAnswers index))"

definition refinementContext :: "Text list \<Rightarrow> Text \<Rightarrow> nat \<Rightarrow> string" where
  "refinementContext initialAnswers initialAnswer index =
     ''My initial response was: '' @ quoted (js_string initialAnswer)
     @ ''. The other agents responded with:'' @ nl
     @ otherAnswersText initialAnswers index @ nl @ nl
     @ ''Based on this context, critically re-evaluate and provide a new, improved response to the original query.''"

definition internal_context :: "string \<Rightarrow> string" where
  "internal_context ctx = nl @ nl @ ''---INTERNAL CONTEXT---'' @ nl @ ctx"

text \<open>Lines 299-310.\<close>

definition refinementTurn :: "Part list \<Rightarrow> Text list \<Rightarrow> Text \<Rightarrow> nat \<Rightarrow> Content" where
  "refinementTurn base initialAnswers initialAnswer index =
     \<lparr>c_role = User,
      c_parts = base @ [TextPart (internal_context
                          (refinementContext initialAnswers initialAnswer index))]\<rparr>"

definition refinement_call ::
  "Content list \<Rightarrow> Part list \<Rightarrow> Text list \<Rightarrow> Text \<Rightarrow> nat \<Rightarrow> Call" where
  "refinement_call hist base initialAnswers initialAnswer index =
     \<lparr>systemInstruction = REFINEMENT_SYSTEM_INSTRUCTION, streaming = False,
      contents = hist @ [refinementTurn base initialAnswers initialAnswer index]\<rparr>"

text \<open>Lines 317-333.\<close>

definition refined_entry :: "Text \<Rightarrow> nat \<Rightarrow> string" where
  "refined_entry answer i =
     ''Refined Response '' @ string_of_nat (i + 1) @ '':'' @ nl @ quoted (js_string answer)"

definition synthesizerContext :: "Text list \<Rightarrow> string" where
  "synthesizerContext refinedAnswers =
     ''Here are the '' @ string_of_nat NUM_AGENTS
     @ '' refined responses to the user'' @ [CHR 0x27]
     @ ''s query. Your task is to synthesize them into the best single, final answer.''
     @ nl @ nl @ join (nl @ nl) (map_indexed refined_entry refinedAnswers)"

definition synthesizer_call :: "Content list \<Rightarrow> Part list \<Rightarrow> Text list \<Rightarrow> Call" where
  "synthesizer_call hist base refinedAnswers =
     \<lparr>systemInstruction = SYNTHESIZER_SYSTEM_INSTRUCTION, streaming = True,
      contents = hist @ [\<lparr>c_role = User,
                           c_parts = base @ [TextPart (internal_context
                                               (synthesizerContext refinedAnswers))]\<rparr>]\<rparr>"

text \<open>Line 321.\<close>

definition placeholderMessage :: Message where
  "placeholderMessage = \<lparr>role = Model, parts = [[]], msg_image = None, sources = None, work = None\<rparr>"

text \<open>
  The updater of lines 345-349 writes the text of the first part of the last message,
  whichever message that is. On an empty log, or on a message with no part, the source
  throws inside the updater; the log is not empty from line 248 on and every message this
  program creates has exactly one part, and the model leaves the log unchanged there.
\<close>

definition set_last_text :: "string \<Rightarrow> Message list \<Rightarrow> Message list" where
  "set_last_text t prev =
     (if prev = [] then prev
      else prev[length prev - 1 := (last prev)\<lparr>parts := (parts (last prev))[0 := t]\<rparr>])"

text \<open>The updater of lines 362-368.\<close>

definition attach_final :: "Source list \<Rightarrow> Work \<Rightarrow> Message list \<Rightarrow> Message list" where
  "attach_final srcs workData prev =
     (if prev = [] then prev
      else prev[length prev - 1 :=
             (last prev)\<lparr>sources := (if length srcs > 0 then Some srcs else None),
                          work := Some workData\<rparr>])"

text \<open>Lines 373-377.\<close>

definition errorMessage :: "JsError \<Rightarrow> string" where
  "errorMessage error =
     (case error of
        Error message \<Rightarrow> ''Sorry, I encountered an error: '' @ message @ ''. Please try again.''
      | Thrown \<Rightarrow> ''An unexpected error occurred. Please check the console for details and try again.'')"

definition error_turn :: "JsError \<Rightarrow> Message" where
  "error_turn error =
     \<lparr>role = Model, parts = [errorMessage error], msg_image = None, sources = None, work = None\<rparr>"

subsection \<open>The stretches of the handler between two awaits\<close>

text \<open>Lines 244-250.\<close>

definition begin_run :: "string \<Rightarrow> App \<Rightarrow> App" where
  "begin_run userInput a =
     handleRemoveImage (a\<lparr>messages := messages a @ [userMessage userInput a], isLoading := True\<rparr>)"

text \<open>Lines 276-288: all the initial calls are made before the handler awaits.\<close>

definition issue_initial :: "Content list \<Rightarrow> Part list \<Rightarrow> App \<Rightarrow> App" where
  "issue_initial hist base a =
     a\<lparr>loadingStatus := ''Initializing agents...'',
       issued := issued a @ replicate NUM_AGENTS (initial_call hist base)\<rparr>"

text \<open>Lines 293-311.\<close>

definition issue_refinement :: "Content list \<Rightarrow> Part list \<Rightarrow> Text list \<Rightarrow> App \<Rightarrow> App" where
  "issue_refinement hist base initialAnswers a =
     a\<lparr>loadingStatus := ''Refining answers...'',
       issued := issued a @ map_indexed (refinement_call hist base initialAnswers) initialAnswers\<rparr>"

text \<open>Lines 316-333.\<close>

definition enter_synthesis :: "Content list \<Rightarrow> Part list \<Rightarrow> Text list \<Rightarrow> App \<Rightarrow> App" where
  "enter_synthesis hist base refinedAnswers a =
     a\<lparr>loadingStatus := ''Synthesizing final response...'',
       isLoading := False,
       messages := messages a @ [placeholderMessage],
       issued := issued a @ [synthesizer_call hist base refinedAnswers]\<rparr>"

text \<open>One iteration of the loop of lines 338-350, on the loop's two variables and the
  state.\<close>

type_synonym LoopState = "string \<times> GroundingChunk list \<times> App"

text \<open>What line 339, \<^verbatim>\<open>finalResponseText += chunk.text\<close>, appends for a chunk.\<close>

definition appended :: "StreamChunk \<Rightarrow> string" where
  "appended chunk = js_string (chunk_text chunk)"

definition on_chunk :: "StreamChunk \<Rightarrow> LoopState \<Rightarrow> LoopState" where
  "on_chunk chunk s =
     (case s of (finalResponseText, allGroundingChunks, a) \<Rightarrow>
        (let t = finalResponseText @ appended chunk
         in (t, push_grounding allGroundingChunks chunk,
             a\<lparr>messages := set_last_text t (messages a)\<rparr>)))"

text \<open>Lines 352-368.\<close>

definition finish :: "Text list \<Rightarrow> Text list \<Rightarrow> GroundingChunk list \<Rightarrow> App \<Rightarrow> App" where
  "finish initialAnswers refinedAnswers allGroundingChunks a =
     a\<lparr>messages :=
         attach_final (compute_sources allGroundingChunks)
           \<lparr>initialResponses = initialAnswers, refinedResponses = refinedAnswers\<rparr>
           (messages a)\<rparr>"

text \<open>Lines 370-378.\<close>

definition on_catch :: "JsError \<Rightarrow> App \<Rightarrow> App" where
  "on_catch error a = a\<lparr>isLoading := False, messages := messages a @ [error_turn error]\<rparr>"

subsection \<open>One run of the handler against a scripted client\<close>

text \<open>
  This is one call of the handler with no other call of it in between: every await is
  resumed with what the script says, and nothing else touches the state meanwhile. The
  section on the page as a machine of events has the interleavings.

  How the handler left: by the \<^verbatim>\<open>return\<close> of line 242, through the end of the
  \<^verbatim>\<open>try\<close> block, through the \<^verbatim>\<open>catch\<close> block with the error caught, or never
  (an await that is never resumed). With it comes the list of the states the handler
  publishes, one for each stretch between two awaits, in order.
\<close>

datatype Exit = Returned | Completed | Caught JsError | Suspended

text \<open>Line 289: the join of the promises of lines 277-288, one for each agent index.
  Line 312: the join of the promises of lines 294-311, one for each initial answer.\<close>

definition initial_join :: "ModelClient \<Rightarrow> Text list Await" where
  "initial_join mc =
     Promise_all (map (generateContent mc INITIAL_SYSTEM_INSTRUCTION) [0..<NUM_AGENTS])"

definition refined_join :: "ModelClient \<Rightarrow> nat \<Rightarrow> Text list Await" where
  "refined_join mc n =
     Promise_all (map (generateContent mc REFINEMENT_SYSTEM_INSTRUCTION) [0..<n])"

text \<open>The states of the loop, one after each chunk.\<close>

fun stream_loop :: "StreamChunk list \<Rightarrow> LoopState \<Rightarrow> LoopState list" where
  "stream_loop [] s = []"
| "stream_loop (chunk # chunks) s = on_chunk chunk s # stream_loop chunks (on_chunk chunk s)"

definition app_of :: "LoopState \<Rightarrow> App" where
  "app_of s = snd (snd s)"

text \<open>Lines 324-368, from the state \<open>a4\<close> in which the streaming call was made.\<close>

definition synthesize ::
  "ModelClient \<Rightarrow> Text list \<Rightarrow> Text list \<Rightarrow> App \<Rightarrow> Exit \<times> App list" where
  "synthesize mc initialAnswers refinedAnswers a4 =
     (case generateContentStream mc of
        Inl e \<Rightarrow> (Caught e, [on_catch e a4])
      | Inr (chunks, failure) \<Rightarrow>
          (let steps = stream_loop chunks ([], [], a4);
               end_state = last (([], [], a4) # steps)
           in case failure of
                Some e \<Rightarrow> (Caught e, map app_of steps @ [on_catch e (app_of end_state)])
              | None \<Rightarrow>
                  (Completed,
                   map app_of steps
                   @ [finish initialAnswers refinedAnswers (fst (snd end_state))
                        (app_of end_state)])))"

text \<open>Lines 312-368, from the state \<open>a3\<close> in which the refinement calls were made.\<close>

definition refine ::
  "ModelClient \<Rightarrow> Content list \<Rightarrow> Part list \<Rightarrow> Text list \<Rightarrow> App \<Rightarrow> Exit \<times> App list" where
  "refine mc hist base initialAnswers a3 =
     (case refined_join mc (length initialAnswers) of
        Pending \<Rightarrow> (Suspended, [])
      | Rejected e \<Rightarrow> (Caught e, [on_catch e a3])
      | Fulfilled refinedAnswers \<Rightarrow>
          (let a4 = enter_synthesis hist base refinedAnswers a3;
               r = synthesize mc initialAnswers refinedAnswers a4
           in (fst r, a4 # snd r)))"

text \<open>Lines 289-368, from the state \<open>a2\<close> in which the initial calls were made.\<close>

definition fan_out ::
  "ModelClient \<Rightarrow> Content list \<Rightarrow> Part list \<Rightarrow> App \<Rightarrow> Exit \<times> App list" where
  "fan_out mc hist base a2 =
     (case initial_join mc of
        Pending \<Rightarrow> (Suspended, [])
      | Rejected e \<Rightarrow> (Caught e, [on_catch e a2])
      | Fulfilled initialAnswers \<Rightarrow>
          (let a3 = issue_refinement hist base initialAnswers a2;
               r = refine mc hist base initialAnswers a3
           in (fst r, a3 # snd r)))"

text \<open>The whole handler.\<close>

definition handleSubmit :: "ModelClient \<Rightarrow> string \<Rightarrow> App \<Rightarrow> Exit \<times> App list" where
  "handleSubmit mc userInput a =
     (if rejected_input userInput a then (Returned, [])
      else
        (let a1 = begin_run userInput a;
             hist = mainChatHistory (messages a1);
             base = baseApiParts userInput a
         in case constructor_error mc of
              Some e \<Rightarrow> (Caught e, [on_catch e a1])
            | None \<Rightarrow>
                (let a2 = issue_initial hist base a1;
                     r = fan_out mc hist base a2
                 in (fst r, a2 # snd r))))"

text \<open>The state in which a run leaves the application.\<close>

definition final_state :: "ModelClient \<Rightarrow> string \<Rightarrow> App \<Rightarrow> App" where
  "final_state mc userInput a = last (a # snd (handleSubmit mc userInput a))"

section \<open>The states a run publishes\<close>

text \<open>A turn written by the model with the given text and nothing else attached: the
  placeholder of line 321 is the one with the empty text.\<close>

definition model_turn :: "string \<Rightarrow> Message" where
  "model_turn t = \<lparr>role = Model, parts = [t], msg_image = None, sources = None, work = None\<rparr>"

text \<open>The states at the awaits of lines 289, 312 and 324 of the run that starts in
  state \<open>a\<close>, and the state after the chunks \<open>received\<close> so far.\<close>

definition st_fan_out :: "string \<Rightarrow> App \<Rightarrow> App" where
  "st_fan_out userInput a =
     issue_initial (mainChatHistory (messages (begin_run userInput a)))
       (baseApiParts userInput a) (begin_run userInput a)"

definition st_refine :: "string \<Rightarrow> App \<Rightarrow> Text list \<Rightarrow> App" where
  "st_refine userInput a initialAnswers =
     issue_refinement (mainChatHistory (messages (begin_run userInput a)))
       (baseApiParts userInput a) initialAnswers (st_fan_out userInput a)"

definition st_synthesize :: "string \<Rightarrow> App \<Rightarrow> Text list \<Rightarrow> Text list \<Rightarrow> App" where
  "st_synthesize userInput a initialAnswers refinedAnswers =
     enter_synthesis (mainChatHistory (messages (begin_run userInput a)))
       (baseApiParts userInput a) refinedAnswers (st_refine userInput a initialAnswers)"

definition st_stream :: "string \<Rightarrow> App \<Rightarrow> Text list \<Rightarrow> Text list \<Rightarrow> StreamChunk list \<Rightarrow> App" where
  "st_stream userInput a initialAnswers refinedAnswers received =
     (st_synthesize userInput a initialAnswers refinedAnswers)
       \<lparr>messages := messages a @ [userMessage userInput a,
                                   model_turn (concat (map appended received))]\<rparr>"

text \<open>What a run has published when its stream has delivered the chunks \<open>cs\<close>.\<close>

definition published :: "string \<Rightarrow> App \<Rightarrow> Text list \<Rightarrow> Text list \<Rightarrow> StreamChunk list \<Rightarrow> App list" where
  "published u a ia ra cs =
     [st_fan_out u a, st_refine u a ia, st_synthesize u a ia ra]
     @ map (\<lambda>k. st_stream u a ia ra (take (Suc k) cs)) [0..<length cs]"

text \<open>The text the page shows for the last turn of the log (\<^verbatim>\<open>msg.parts[0].text\<close>, line 413).\<close>

definition visible_text :: "App \<Rightarrow> string" where
  "visible_text a =
     (case rev (messages a) of [] \<Rightarrow> []
      | m # _ \<Rightarrow> (case parts m of [] \<Rightarrow> [] | t # _ \<Rightarrow> t))"

text \<open>
  The calls whose contents are the projection of the log at submission followed by one
  user content that starts with the parts of the submission.
\<close>

definition run_calls :: "string \<Rightarrow> App \<Rightarrow> Call set" where
  "run_calls u a =
     {c. \<exists>extra. contents c =
            map (\<lambda>m. \<lparr>c_role = role m, c_parts = map TextPart (parts m)\<rparr>) (messages a)
            @ [\<lparr>c_role = User, c_parts = baseApiParts u a @ extra\<rparr>]
          \<and> (extra = [] \<or> (\<exists>t. extra = [TextPart t]))}"

section \<open>The page as a machine of events\<close>

text \<open>
  Several calls of the handler can be suspended at once, each at one of its awaits, with
  the local variables it will read when it resumes: at line 289, at line 312, at line 324,
  or in the loop of line 338 with the chunks still to come and the way the stream ends.
  A call that has left the handler is \<open>Ended\<close>.
\<close>

datatype Run =
    AwaitInitial "Content list" "Part list"
  | AwaitRefined "Content list" "Part list" "Text list"
  | AwaitStream "Text list" "Text list"
  | InStream "Text list" "Text list" string "GroundingChunk list" "StreamChunk list" "JsError option"
  | Ended

text \<open>The page: the state of \<^verbatim>\<open>App\<close>, the calls of the handler in the order of their
  submission, each with the script of the client it talks to, and the files whose
  \<^verbatim>\<open>FileReader\<close> has not fired \<^verbatim>\<open>onloadend\<close> yet.\<close>

record Page =
  app :: App
  runs :: "(ModelClient \<times> Run) list"
  readers :: "File list"

definition initial_Page :: Page where
  "initial_Page = \<lparr>app = initial_App, runs = [], readers = []\<rparr>"

datatype Event =
    Submit string ModelClient
  | Resume nat
  | SelectFile File
  | LoadEnd nat
  | RemoveImage

text \<open>Line 206.\<close>

definition MAX_FILE_SIZE :: nat where
  "MAX_FILE_SIZE = 4 * 1024 * 1024"

text \<open>Lines 203-217, for a chosen file.\<close>

definition handleImageChange :: "File \<Rightarrow> Page \<Rightarrow> Page" where
  "handleImageChange file p =
     (if file_size file > MAX_FILE_SIZE then p
      else p\<lparr>app := (app p)\<lparr>imageFile := Some file\<rparr>, readers := readers p @ [file]\<rparr>)"

text \<open>Lines 212-214: \<^verbatim>\<open>onloadend\<close> of the reader at position \<open>i\<close>.\<close>

definition onloadend :: "nat \<Rightarrow> Page \<Rightarrow> Page" where
  "onloadend i p =
     (if i < length (readers p)
      then p\<lparr>app := (app p)\<lparr>image := data_url (readers p ! i)\<rparr>,
             readers := take i (readers p) @ drop (Suc i) (readers p)\<rparr>
      else p)"

text \<open>
  The form (lines 436-455): the text input and the submit button carry
  \<^verbatim>\<open>disabled={isLoading}\<close>, so a submission reaches \<^verbatim>\<open>handleSubmit\<close> only while
  \<^verbatim>\<open>isLoading\<close> is false. The handler then runs up to its first await (lines 238-288).
\<close>

definition submit :: "string \<Rightarrow> ModelClient \<Rightarrow> Page \<Rightarrow> Page" where
  "submit userInput mc p =
     (if isLoading (app p) then p
      else if rejected_input userInput (app p) then p
      else
        (let a1 = begin_run userInput (app p);
             hist = mainChatHistory (messages a1);
             base = baseApiParts userInput (app p)
         in case constructor_error mc of
              Some e \<Rightarrow> p\<lparr>app := on_catch e a1, runs := runs p @ [(mc, Ended)]\<rparr>
            | None \<Rightarrow> p\<lparr>app := issue_initial hist base a1,
                          runs := runs p @ [(mc, AwaitInitial hist base)]\<rparr>))"

text \<open>A suspended call resumes and runs to its next await, or to its end.\<close>

fun resume :: "ModelClient \<Rightarrow> Run \<Rightarrow> App \<Rightarrow> Run \<times> App" where
  "resume mc (AwaitInitial hist base) a =
     (case initial_join mc of
        Pending \<Rightarrow> (AwaitInitial hist base, a)
      | Rejected e \<Rightarrow> (Ended, on_catch e a)
      | Fulfilled initialAnswers \<Rightarrow>
          (AwaitRefined hist base initialAnswers, issue_refinement hist base initialAnswers a))"
| "resume mc (AwaitRefined hist base initialAnswers) a =
     (case refined_join mc (length initialAnswers) of
        Pending \<Rightarrow> (AwaitRefined hist base initialAnswers, a)
      | Rejected e \<Rightarrow> (Ended, on_catch e a)
      | Fulfilled refinedAnswers \<Rightarrow>
          (AwaitStream initialAnswers refinedAnswers, enter_synthesis hist base refinedAnswers a))"
| "resume mc (AwaitStream initialAnswers refinedAnswers) a =
     (case generateContentStream mc of
        Inl e \<Rightarrow> (Ended, on_catch e a)
      | Inr (chunks, failure) \<Rightarrow> (InStream initialAnswers refinedAnswers [] [] chunks failure, a))"
| "resume mc (InStream initialAnswers refinedAnswers finalResponseText allGroundingChunks
               (chunk # chunks) failure) a =
     (case on_chunk chunk (finalResponseText, allGroundingChunks, a) of
        (t, gs, a') \<Rightarrow> (InStream initialAnswers refinedAnswers t gs chunks failure, a'))"
| "resume mc (InStream initialAnswers refinedAnswers finalResponseText allGroundingChunks
               [] failure) a =
     (case failure of
        Some e \<Rightarrow> (Ended, on_catch e a)
      | None \<Rightarrow> (Ended, finish initialAnswers refinedAnswers allGroundingChunks a))"
| "resume mc Ended a = (Ended, a)"

definition step :: "Event \<Rightarrow> Page \<Rightarrow> Page" where
  "step ev p =
     (case ev of
        Submit userInput mc \<Rightarrow> submit userInput mc p
      | Resume r \<Rightarrow>
          (if r < length (runs p)
           then (case runs p ! r of (mc, run) \<Rightarrow>
                   (case resume mc run (app p) of
                      (run', a') \<Rightarrow> p\<lparr>app := a', runs := (runs p)[r := (mc, run')]\<rparr>))
           else p)
      | SelectFile file \<Rightarrow> handleImageChange file p
      | LoadEnd i \<Rightarrow> onloadend i p
      | RemoveImage \<Rightarrow> p\<lparr>app := handleRemoveImage (app p)\<rparr>)"

definition run_events :: "Event list \<Rightarrow> Page \<Rightarrow> Page" where
  "run_events evs p = foldl (\<lambda>q ev. step ev q) p evs"

text \<open>The same suspended call resumed \<open>n\<close> times in a row.\<close>

definition resumes :: "nat \<Rightarrow> nat \<Rightarrow> Event list" where
  "resumes r n = replicate n (Resume r)"

text \<open>The calls of the handler that are in flight.\<close>

definition in_flight :: "Page \<Rightarrow> nat" where
  "in_flight p = length (filter (\<lambda>r. snd r \<noteq> Ended) (runs p))"

section \<open>Where inline attachments come from\<close>

text \<open>Where an inline attachment may come from: its mime type is that of a file of
  \<open>F\<close> and its payload is what line 265 cuts out of the data URL of a file of \<open>F\<close>.\<close>

definition inline_ok :: "File set \<Rightarrow> Part \<Rightarrow> bool" where
  "inline_ok F p =
     (case p of
        TextPart _ \<Rightarrow> True
      | InlineData m d \<Rightarrow>
          (\<exists>f\<in>F. mime_type f = m)
          \<and> (\<exists>g\<in>F. \<exists>img. data_url g = Some img \<and> d = nth_opt (split_on CHR '','' img) 1))"

text \<open>
  Every inline attachment of the contents comes from \<open>F\<close>; the same for the state (the
  chosen file, the image read, the calls made), for a suspended call, and for the page.
\<close>

definition contents_ok :: "File set \<Rightarrow> Content list \<Rightarrow> bool" where
  "contents_ok F cs = (\<forall>h\<in>set cs. \<forall>p\<in>set (c_parts h). inline_ok F p)"

definition app_ok :: "File set \<Rightarrow> App \<Rightarrow> bool" where
  "app_ok F a =
     ((\<forall>f. imageFile a = Some f \<longrightarrow> f \<in> F)
      \<and> (\<forall>img. image a = Some img \<longrightarrow> (\<exists>g\<in>F. data_url g = Some img))
      \<and> (\<forall>c\<in>set (issued a). contents_ok F (contents c)))"

fun run_ok :: "File set \<Rightarrow> Run \<Rightarrow> bool" where
  "run_ok F (AwaitInitial hist base) = (contents_ok F hist \<and> (\<forall>p\<in>set base. inline_ok F p))"
| "run_ok F (AwaitRefined hist base ia) = (contents_ok F hist \<and> (\<forall>p\<in>set base. inline_ok F p))"
| "run_ok F _ = True"

definition page_ok :: "File set \<Rightarrow> Page \<Rightarrow> bool" where
  "page_ok F p =
     (app_ok F (app p) \<and> set (readers p) \<subseteq> F \<and> (\<forall>r\<in>set (runs p). run_ok F (snd r)))"

text \<open>
  The files chosen in a sequence of events that are within the size limit.
\<close>

definition accepted :: "Event list \<Rightarrow> File set" where
  "accepted evs = {f. SelectFile f \<in> set evs \<and> file_size f \<le> MAX_FILE_SIZE}"

section \<open>Examples\<close>

text \<open>
  The example of the specification: four agents that all answer \<open>4\<close>, a stream of two
  deltas, each with the same citation.
\<close>

definition ex_web :: GroundingChunk where
  "ex_web = \<lparr>web = Some \<lparr>uri = Some ''https://example.com'', title = Some ''Example''\<rparr>\<rparr>"

definition example_client :: ModelClient where
  "example_client = \<lparr>constructor_error = None,
     generateContent = (\<lambda>si i. (4 - i, Inr (Some ''4''))),
     generateContentStream = Inr ([\<lparr>chunk_text = Some ''The answer is '', groundingChunks = Some [ex_web]\<rparr>,
                                   \<lparr>chunk_text = Some ''4.'', groundingChunks = Some [ex_web]\<rparr>], None)\<rparr>"


text \<open>
  The same client with a stream that fails after its first delta.
\<close>

definition failing_client :: ModelClient where
  "failing_client = example_client
     \<lparr>generateContentStream :=
        Inr ([\<lparr>chunk_text = Some ''The answer is '', groundingChunks = Some [ex_web]\<rparr>],
             Some (Error ''boom''))\<rparr>"

text \<open>
  The same client with the initial call at index 2 rejected.
\<close>

definition quota_client :: ModelClient where
  "quota_client = example_client
     \<lparr>generateContent := (\<lambda>si i. (i, if i = 2 then Inl (Error ''quota'') else Inr (Some ''4'')))\<rparr>"

text \<open>
  A log of one earlier exchange: a user turn with an image, and a model turn with sources
  and a work trace.
\<close>

definition example_history :: App where
  "example_history = initial_App
     \<lparr>messages :=
        [\<lparr>role = User, parts = [''look''], msg_image = Some ''data:image/png;base64,AAAA'',
          sources = None, work = None\<rparr>,
         \<lparr>role = Model, parts = [''a cat''], msg_image = None,
          sources = Some [\<lparr>uri = Some ''https://example.com'', title = Some ''Example''\<rparr>],
          work = Some \<lparr>initialResponses = [Some ''c''], refinedResponses = [Some ''cat'']\<rparr>\<rparr>]\<rparr>"


text \<open>
  The same client with a stream of three chunks, the second of which carries a citation
  and no text part.
\<close>

definition textless_client :: ModelClient where
  "textless_client = example_client
     \<lparr>generateContentStream :=
        Inr ([\<lparr>chunk_text = Some ''The answer is '', groundingChunks = None\<rparr>,
              \<lparr>chunk_text = None, groundingChunks = Some [ex_web]\<rparr>,
              \<lparr>chunk_text = Some ''4.'', groundingChunks = None\<rparr>], None)\<rparr>"

text \<open>
  A file within the size limit and one over it.
\<close>

definition small_file :: File where
  "small_file = \<lparr>file_size = 1024, mime_type = ''image/png'',
                  data_url = Some ''data:image/png;base64,AAAA''\<rparr>"

definition big_file :: File where
  "big_file = \<lparr>file_size = 5 * 1024 * 1024, mime_type = ''image/png'',
                data_url = Some ''data:image/png;base64,BBBB''\<rparr>"

section \<open>Facts about the array helpers\<close>








section \<open>Facts about the citation list\<close>



















section \<open>Facts about \<^verbatim>\<open>Promise.all\<close>\<close>

lemma settle_fulfilled:
  assumes "\<forall>i<length outcomes. \<exists>v. outcomes ! i = Inr v"
    and "length vals = length outcomes"
    and "distinct order" and "set order \<subseteq> {..<length outcomes}" and "order \<noteq> []"
    and "\<forall>i<length outcomes. i \<notin> set order \<longrightarrow> vals ! i = Some (projr (outcomes ! i))"
  shows "settle outcomes order vals (length order) = Fulfilled (map projr outcomes)"
  using assms
proof (induction order arbitrary: vals)
  case Nil
  then show ?case by simp
next
  case (Cons i order)
  from Cons.prems have i: "i < length outcomes" by simp
  with Cons.prems(1) obtain v where v: "outcomes ! i = Inr v" by blast
  let ?vals = "vals[i := Some v]"
  have filled: "\<forall>j<length outcomes. j \<notin> set order \<longrightarrow> ?vals ! j = Some (projr (outcomes ! j))"
  proof (intro allI impI)
    fix j assume j: "j < length outcomes" "j \<notin> set order"
    show "?vals ! j = Some (projr (outcomes ! j))"
    proof (cases "j = i")
      case True
      then show ?thesis using v i Cons.prems(2) by simp
    next
      case False
      then show ?thesis using j Cons.prems(6) by simp
    qed
  qed
  show ?case
  proof (cases "order = []")
    case True
    have "map the ?vals = map projr outcomes"
    proof (rule nth_equalityI)
      show "length (map the ?vals) = length (map projr outcomes)"
        using Cons.prems(2) by simp
    next
      fix j assume "j < length (map the ?vals)"
      then have j: "j < length outcomes" using Cons.prems(2) by simp
      then have "?vals ! j = Some (projr (outcomes ! j))" using filled True by simp
      then show "map the ?vals ! j = map projr outcomes ! j"
        using j Cons.prems(2) by simp
    qed
    then show ?thesis using True v by simp
  next
    case False
    have "settle outcomes order ?vals (length order) = Fulfilled (map projr outcomes)"
      using Cons.prems filled False by (intro Cons.IH) simp_all
    then show ?thesis using False v by simp
  qed
qed

lemma settle_rejected:
  assumes "\<exists>i\<in>set order. \<exists>e. outcomes ! i = Inl e"
  shows "\<exists>e. settle outcomes order vals (length order) = Rejected e
           \<and> (\<exists>i\<in>set order. outcomes ! i = Inl e)"
  using assms
proof (induction order arbitrary: vals)
  case Nil
  then show ?case by simp
next
  case (Cons i order)
  show ?case
  proof (cases "outcomes ! i")
    case (Inl e)
    then show ?thesis by auto
  next
    case (Inr v)
    with Cons.prems have ex: "\<exists>i\<in>set order. \<exists>e. outcomes ! i = Inl e" by auto
    then have ne: "order \<noteq> []" by auto
    from Cons.IH [OF ex, of "vals[i := Some v]"] obtain e where
      "settle outcomes order (vals[i := Some v]) (length order) = Rejected e"
      "\<exists>i\<in>set order. outcomes ! i = Inl e" by blast
    then show ?thesis using Inr ne by auto
  qed
qed

lemma set_completion_order: "set (completion_order ts) = {..<length ts}"
  by (auto simp: completion_order_def)

lemma distinct_completion_order: "distinct (completion_order ts)"
  by (simp add: completion_order_def)

lemma length_completion_order: "length (completion_order ts) = length ts"
  by (simp add: completion_order_def)

lemma Promise_all_fulfilled:
  assumes "\<forall>p\<in>set promises. \<exists>v. snd p = Inr v"
  shows "Promise_all promises = Fulfilled (map (projr \<circ> snd) promises)"
proof (cases "promises = []")
  case True
  then show ?thesis by (simp add: Promise_all_def)
next
  case False
  let ?outs = "map snd promises" and ?order = "completion_order (map fst promises)"
  have len: "length ?order = length promises" by (simp add: length_completion_order)
  have "settle ?outs ?order (replicate (length promises) None) (length ?order)
          = Fulfilled (map projr ?outs)"
  proof (rule settle_fulfilled)
    show "\<forall>i<length ?outs. \<exists>v. ?outs ! i = Inr v" using assms by simp
    show "?order \<noteq> []" using False len by (metis length_0_conv)
    show "\<forall>i<length ?outs. i \<notin> set ?order \<longrightarrow>
            replicate (length promises) None ! i = Some (projr (?outs ! i))"
      by (simp add: set_completion_order)
  qed (simp_all add: set_completion_order distinct_completion_order)
  then show ?thesis using False by (simp add: Promise_all_def len)
qed

lemma Promise_all_rejected:
  assumes "\<exists>p\<in>set promises. \<exists>e. snd p = Inl e"
  shows "\<exists>e. Promise_all promises = Rejected e \<and> (\<exists>p\<in>set promises. snd p = Inl e)"
proof -
  let ?outs = "map snd promises" and ?order = "completion_order (map fst promises)"
  from assms have ne: "promises \<noteq> []" by auto
  have len: "length ?order = length promises" by (simp add: length_completion_order)
  from assms obtain i where i: "i < length promises" "\<exists>e. snd (promises ! i) = Inl e"
    by (metis in_set_conv_nth)
  then have "\<exists>i\<in>set ?order. \<exists>e. ?outs ! i = Inl e"
    by (auto simp: set_completion_order)
  from settle_rejected [OF this, of "replicate (length promises) None"]
  obtain e j where "settle ?outs ?order (replicate (length promises) None) (length ?order) = Rejected e"
    and "j \<in> set ?order" "?outs ! j = Inl e" by blast
  then show ?thesis using ne len by (auto simp: Promise_all_def set_completion_order)
qed

lemma Promise_all_not_Pending: "Promise_all promises \<noteq> Pending"
proof (cases "\<exists>p\<in>set promises. \<exists>e. snd p = Inl e")
  case True
  from Promise_all_rejected [OF this] show ?thesis by auto
next
  case False
  then have "\<forall>p\<in>set promises. \<exists>v. snd p = Inr v"
    by (metis sum.exhaust_sel sum.collapse)
  from Promise_all_fulfilled [OF this] show ?thesis by simp
qed

section \<open>Facts about one run of the handler\<close>

lemma set_last_text_snoc:
  "set_last_text t (ms @ [m]) = ms @ [m\<lparr>parts := (parts m)[0 := t]\<rparr>]"
  by (simp add: set_last_text_def)

lemma attach_final_snoc:
  "attach_final srcs w (ms @ [m]) =
     ms @ [m\<lparr>sources := (if srcs = [] then None else Some srcs), work := Some w\<rparr>]"
  by (simp add: attach_final_def)

lemma length_stream_loop: "length (stream_loop cs s) = length cs"
  by (induction cs arbitrary: s) simp_all

lemma on_chunk_model_turn:
  "messages a = ms @ [model_turn t] \<Longrightarrow>
     on_chunk c (t, g, a) =
       (t @ appended c, push_grounding g c, a\<lparr>messages := ms @ [model_turn (t @ appended c)]\<rparr>)"
  by (simp add: on_chunk_def set_last_text_snoc model_turn_def Let_def)

lemma stream_loop_nth:
  "k < length cs \<Longrightarrow> messages a = ms @ [model_turn t] \<Longrightarrow>
     stream_loop cs (t, g, a) ! k =
       (t @ concat (map appended (take (Suc k) cs)),
        foldl push_grounding g (take (Suc k) cs),
        a\<lparr>messages := ms @ [model_turn (t @ concat (map appended (take (Suc k) cs)))]\<rparr>)"
proof (induction cs arbitrary: k t g a)
  case Nil
  then show ?case by simp
next
  case (Cons c cs)
  show ?case
  proof (cases k)
    case 0
    then show ?thesis using Cons.prems by (simp add: on_chunk_model_turn)
  next
    case (Suc j)
    with Cons.prems have j: "j < length cs" by simp
    have m: "messages (a\<lparr>messages := ms @ [model_turn (t @ appended c)]\<rparr>)
             = ms @ [model_turn (t @ appended c)]" by simp
    show ?thesis
      using Cons.IH [OF j m, of "push_grounding g c"] Cons.prems Suc
      by (simp add: on_chunk_model_turn)
  qed
qed

lemma stream_loop_last:
  "messages a = ms @ [model_turn t] \<Longrightarrow>
     last ((t, g, a) # stream_loop cs (t, g, a)) =
       (t @ concat (map appended cs), foldl push_grounding g cs,
        a\<lparr>messages := ms @ [model_turn (t @ concat (map appended cs))]\<rparr>)"
proof (cases "cs = []")
  case True
  assume "messages a = ms @ [model_turn t]"
  then have "a\<lparr>messages := ms @ [model_turn t]\<rparr> = a" by (cases a) simp
  then show ?thesis using True by simp
next
  case False
  assume m: "messages a = ms @ [model_turn t]"
  from False have k: "length cs - 1 < length cs" by simp
  have ne: "stream_loop cs (t, g, a) \<noteq> []"
    using False length_stream_loop [of cs "(t, g, a)"] by (metis length_0_conv)
  have "last ((t, g, a) # stream_loop cs (t, g, a)) = stream_loop cs (t, g, a) ! (length cs - 1)"
    using ne by (simp add: last_conv_nth length_stream_loop)
  then show ?thesis using stream_loop_nth [OF k m, of g] False by simp
qed

lemma mainChatHistory_snoc:
  "mainChatHistory (ms @ [m]) = map (\<lambda>msg. \<lparr>c_role = role msg, c_parts = map TextPart (parts msg)\<rparr>) ms"
  by (simp add: mainChatHistory_def)

lemma messages_begin_run: "messages (begin_run u a) = messages a @ [userMessage u a]"
  by (simp add: begin_run_def handleRemoveImage_def)

lemma messages_st_fan_out: "messages (st_fan_out u a) = messages a @ [userMessage u a]"
  by (simp add: st_fan_out_def issue_initial_def messages_begin_run)

lemma messages_st_refine: "messages (st_refine u a ia) = messages a @ [userMessage u a]"
  by (simp add: st_refine_def issue_refinement_def messages_st_fan_out)

lemma messages_st_synthesize:
  "messages (st_synthesize u a ia ra) = messages a @ [userMessage u a, model_turn []]"
  by (simp add: st_synthesize_def enter_synthesis_def messages_st_refine placeholderMessage_def model_turn_def)

lemma st_stream_Nil: "st_stream u a ia ra [] = st_synthesize u a ia ra"
  using messages_st_synthesize [of u a ia ra]
  by (cases "st_synthesize u a ia ra") (simp add: st_stream_def)

lemma map_app_of_stream_loop:
  "map app_of (stream_loop cs ([], [], st_synthesize u a ia ra))
     = map (\<lambda>k. st_stream u a ia ra (take (Suc k) cs)) [0..<length cs]"
proof (rule nth_equalityI)
  show "length (map app_of (stream_loop cs ([], [], st_synthesize u a ia ra)))
      = length (map (\<lambda>k. st_stream u a ia ra (take (Suc k) cs)) [0..<length cs])"
    by (simp add: length_stream_loop)
next
  fix k assume "k < length (map app_of (stream_loop cs ([], [], st_synthesize u a ia ra)))"
  then have k: "k < length cs" by (simp add: length_stream_loop)
  have m: "messages (st_synthesize u a ia ra) = (messages a @ [userMessage u a]) @ [model_turn []]"
    by (simp add: messages_st_synthesize)
  show "map app_of (stream_loop cs ([], [], st_synthesize u a ia ra)) ! k
      = map (\<lambda>k. st_stream u a ia ra (take (Suc k) cs)) [0..<length cs] ! k"
    using stream_loop_nth [OF k m, of "[]"] k
    by (simp add: length_stream_loop app_of_def st_stream_def)
qed

lemma last_stream_loop:
  "last (([], [], st_synthesize u a ia ra) # stream_loop cs ([], [], st_synthesize u a ia ra))
     = (concat (map appended cs), collected_chunks cs, st_stream u a ia ra cs)"
proof -
  have m: "messages (st_synthesize u a ia ra) = (messages a @ [userMessage u a]) @ [model_turn []]"
    by (simp add: messages_st_synthesize)
  show ?thesis
    using stream_loop_last [OF m, of "[]" cs]
    by (simp add: st_stream_def collected_chunks_def)
qed

lemma synthesize_eq:
  "synthesize mc ia ra (st_synthesize u a ia ra) =
     (case generateContentStream mc of
        Inl e \<Rightarrow> (Caught e, [on_catch e (st_synthesize u a ia ra)])
      | Inr (cs, failure) \<Rightarrow>
          (case failure of
             Some e \<Rightarrow> (Caught e, map (\<lambda>k. st_stream u a ia ra (take (Suc k) cs)) [0..<length cs]
                                    @ [on_catch e (st_stream u a ia ra cs)])
           | None \<Rightarrow> (Completed, map (\<lambda>k. st_stream u a ia ra (take (Suc k) cs)) [0..<length cs]
                                    @ [finish ia ra (collected_chunks cs) (st_stream u a ia ra cs)])))"
  by (simp add: synthesize_def Let_def map_app_of_stream_loop last_stream_loop app_of_def
           del: last.simps split: sum.splits prod.splits option.splits)

lemma handleSubmit_cases [case_names Returned Constructor Initial Refinement Open Stream Done]:
  obtains
    "rejected_input u a" "handleSubmit mc u a = (Returned, [])"
  | e where "\<not> rejected_input u a" "constructor_error mc = Some e"
      "handleSubmit mc u a = (Caught e, [on_catch e (begin_run u a)])"
  | e where "\<not> rejected_input u a" "constructor_error mc = None" "initial_join mc = Rejected e"
      "handleSubmit mc u a = (Caught e, [st_fan_out u a, on_catch e (st_fan_out u a)])"
  | e ia where "\<not> rejected_input u a" "constructor_error mc = None"
      "initial_join mc = Fulfilled ia" "refined_join mc (length ia) = Rejected e"
      "handleSubmit mc u a
         = (Caught e, [st_fan_out u a, st_refine u a ia, on_catch e (st_refine u a ia)])"
  | e ia ra where "\<not> rejected_input u a" "constructor_error mc = None"
      "initial_join mc = Fulfilled ia" "refined_join mc (length ia) = Fulfilled ra"
      "generateContentStream mc = Inl e"
      "handleSubmit mc u a
         = (Caught e, published u a ia ra [] @ [on_catch e (st_synthesize u a ia ra)])"
  | e ia ra cs where "\<not> rejected_input u a" "constructor_error mc = None"
      "initial_join mc = Fulfilled ia" "refined_join mc (length ia) = Fulfilled ra"
      "generateContentStream mc = Inr (cs, Some e)"
      "handleSubmit mc u a
         = (Caught e, published u a ia ra cs @ [on_catch e (st_stream u a ia ra cs)])"
  | ia ra cs where "\<not> rejected_input u a" "constructor_error mc = None"
      "initial_join mc = Fulfilled ia" "refined_join mc (length ia) = Fulfilled ra"
      "generateContentStream mc = Inr (cs, None)"
      "handleSubmit mc u a
         = (Completed, published u a ia ra cs
                       @ [finish ia ra (collected_chunks cs) (st_stream u a ia ra cs)])"
proof (cases "rejected_input u a")
  case True
  then show ?thesis using that(1) by (simp add: handleSubmit_def)
next
  case nr: False
  show ?thesis
  proof (cases "constructor_error mc")
    case (Some e)
    then show ?thesis using nr that(2) by (simp add: handleSubmit_def)
  next
    case None
    have hs: "handleSubmit mc u a
        = (fst (fan_out mc (mainChatHistory (messages (begin_run u a))) (baseApiParts u a) (st_fan_out u a)),
           st_fan_out u a # snd (fan_out mc (mainChatHistory (messages (begin_run u a))) (baseApiParts u a) (st_fan_out u a)))"
      using nr None by (simp add: handleSubmit_def Let_def st_fan_out_def)
    show ?thesis
    proof (cases "initial_join mc")
      case Pending
      then show ?thesis by (simp add: initial_join_def Promise_all_not_Pending)
    next
      case (Rejected e)
      then show ?thesis using nr None hs that(3) by (simp add: fan_out_def)
    next
      case (Fulfilled ia)
      have hs2: "handleSubmit mc u a
        = (fst (refine mc (mainChatHistory (messages (begin_run u a))) (baseApiParts u a) ia (st_refine u a ia)),
           st_fan_out u a # st_refine u a ia
             # snd (refine mc (mainChatHistory (messages (begin_run u a))) (baseApiParts u a) ia (st_refine u a ia)))"
        using hs Fulfilled by (simp add: fan_out_def Let_def st_refine_def)
      show ?thesis
      proof (cases "refined_join mc (length ia)")
        case Pending
        then show ?thesis by (simp add: refined_join_def Promise_all_not_Pending)
      next
        case (Rejected e)
        then show ?thesis using nr None Fulfilled hs2 that(4) by (simp add: refine_def)
      next
        case ra: (Fulfilled ra)
        have hs3: "handleSubmit mc u a
          = (fst (synthesize mc ia ra (st_synthesize u a ia ra)),
             st_fan_out u a # st_refine u a ia # st_synthesize u a ia ra
               # snd (synthesize mc ia ra (st_synthesize u a ia ra)))"
          using hs2 ra by (simp add: refine_def Let_def st_synthesize_def)
        show ?thesis
        proof (cases "generateContentStream mc")
          case (Inl e)
          then show ?thesis using nr None Fulfilled ra hs3 that(5) [of ia ra e]
            by (simp add: synthesize_eq published_def)
        next
          case (Inr p)
          obtain cs failure where p: "p = (cs, failure)" by (cases p)
          show ?thesis
          proof (cases failure)
            case None': None
            show ?thesis using nr None Fulfilled ra hs3 Inr p None' that(7) [of ia ra cs]
              by (simp add: synthesize_eq published_def)
          next
            case (Some e)
            show ?thesis using nr None Fulfilled ra hs3 Inr p Some that(6) [of ia ra cs e]
              by (simp add: synthesize_eq published_def)
          qed
        qed
      qed
    qed
  qed
qed

lemma published_nth:
  "k < length cs \<Longrightarrow> published u a ia ra cs ! (3 + k) = st_stream u a ia ra (take (Suc k) cs)"
  by (simp add: published_def nth_append)

lemma length_published: "length (published u a ia ra cs) = 3 + length cs"
  by (simp add: published_def)

lemma messages_st_stream:
  "messages (st_stream u a ia ra cs) = messages a @ [userMessage u a, model_turn (concat (map appended cs))]"
  by (simp add: st_stream_def)

lemma visible_text_st_stream: "visible_text (st_stream u a ia ra cs) = concat (map appended cs)"
  by (simp add: visible_text_def messages_st_stream model_turn_def)

lemma length_concat_take_mono:
  "j \<le> k \<Longrightarrow> length (concat (map f (take j xs))) \<le> length (concat (map f (take k xs)))"
proof -
  assume "j \<le> k"
  then have "take k xs = take j xs @ take (k - j) (drop j xs)"
    by (metis le_add_diff_inverse take_add)
  then show ?thesis by simp
qed

lemma run_reaching_stream:
  assumes "\<not> rejected_input u a" "constructor_error mc = None"
    "initial_join mc = Fulfilled ia" "refined_join mc (length ia) = Fulfilled ra"
    "generateContentStream mc = Inr (cs, failure)"
  shows "\<exists>end_state. snd (handleSubmit mc u a) = published u a ia ra cs @ [end_state]"
  using assms by (cases rule: handleSubmit_cases [of u a mc]) auto

lemma published_new_messages:
  assumes "s \<in> set (published u a ia ra cs)"
  shows "\<exists>t. drop (length (messages a)) (messages s) = [userMessage u a]
            \<or> drop (length (messages a)) (messages s) = [userMessage u a, model_turn t]"
proof -
  from assms consider "s = st_fan_out u a" | "s = st_refine u a ia" | "s = st_synthesize u a ia ra"
    | k where "s = st_stream u a ia ra (take (Suc k) cs)"
    by (auto simp: published_def)
  then show ?thesis
    by cases (auto simp: messages_st_fan_out messages_st_refine messages_st_synthesize messages_st_stream)
qed

lemma published_nothing_attached:
  assumes "s \<in> set (published u a ia ra cs)" "m \<in> set (drop (length (messages a)) (messages s))"
  shows "work m = None \<and> sources m = None"
  using published_new_messages [OF assms(1)] assms(2)
  by (auto simp: userMessage_def model_turn_def)

lemma messages_on_catch: "messages (on_catch e s) = messages s @ [error_turn e]"
  by (simp add: on_catch_def)

lemma messages_finish_st_stream:
  "messages (finish ia ra (collected_chunks cs) (st_stream u a ia ra cs)) =
     messages a @ [userMessage u a,
       (model_turn (concat (map appended cs)))
         \<lparr>sources := (if stream_sources cs = [] then None else Some (stream_sources cs)),
          work := Some \<lparr>initialResponses = ia, refinedResponses = ra\<rparr>\<rparr>]"
  using attach_final_snoc [of "stream_sources cs" "\<lparr>initialResponses = ia, refinedResponses = ra\<rparr>"
      "messages a @ [userMessage u a]" "model_turn (concat (map appended cs))"]
  by (simp add: finish_def messages_st_stream stream_sources_def)

lemma last_published: "last (published u a ia ra cs) = st_stream u a ia ra cs"
proof (cases "cs = []")
  case True
  then show ?thesis by (simp add: published_def st_stream_Nil)
next
  case False
  then show ?thesis by (simp add: published_def last_map)
qed

lemma error_turn_nothing_attached: "work (error_turn e) = None \<and> sources (error_turn e) = None"
  by (simp add: error_turn_def)

lemma isLoading_on_catch: "isLoading (on_catch e s) = False"
  by (simp add: on_catch_def)

lemma on_catch_new_messages:
  "drop (length (messages a)) (messages s) = new \<Longrightarrow> length (messages a) \<le> length (messages s) \<Longrightarrow>
     drop (length (messages a)) (messages (on_catch e s)) = new @ [error_turn e]"
  by (simp add: on_catch_def)

lemma initial_join_rejected:
  assumes "i < NUM_AGENTS" "snd (generateContent mc INITIAL_SYSTEM_INSTRUCTION i) = Inl e"
  shows "\<exists>e' j. initial_join mc = Rejected e' \<and> j < NUM_AGENTS
            \<and> snd (generateContent mc INITIAL_SYSTEM_INSTRUCTION j) = Inl e'"
proof -
  let ?ps = "map (generateContent mc INITIAL_SYSTEM_INSTRUCTION) [0..<NUM_AGENTS]"
  have "generateContent mc INITIAL_SYSTEM_INSTRUCTION i \<in> set ?ps" using assms(1) by simp
  then have "\<exists>p\<in>set ?ps. \<exists>e. snd p = Inl e" using assms(2) by blast
  from Promise_all_rejected [OF this] show ?thesis
    by (auto simp: initial_join_def)
qed

lemma issued_st_fan_out:
  "issued (st_fan_out u a) =
     issued a @ replicate NUM_AGENTS
       (initial_call (mainChatHistory (messages a @ [userMessage u a])) (baseApiParts u a))"
  by (simp add: st_fan_out_def issue_initial_def messages_begin_run begin_run_def handleRemoveImage_def)

lemma issued_on_catch: "issued (on_catch e s) = issued s"
  by (simp add: on_catch_def)

section \<open>Facts about the requests of a run\<close>

lemma zip_upt_nth: "zip xs [0..<length xs] = map (\<lambda>j. (xs ! j, j)) [0..<length xs]"
  by (rule nth_equalityI) simp_all

lemma set_map_indexed: "set (map_indexed f xs) = {f (xs ! i) i | i. i < length xs}"
  by (auto simp: map_indexed_def zip_upt_nth)

lemma length_map_indexed: "length (map_indexed f xs) = length xs"
  by (simp add: map_indexed_def)

lemma nth_map_indexed: "i < length xs \<Longrightarrow> map_indexed f xs ! i = f (xs ! i) i"
  by (simp add: map_indexed_def)

lemma map_indexed_upt: "map_indexed f xs = map (\<lambda>i. f (xs ! i) i) [0..<length xs]"
  by (simp add: map_indexed_def zip_upt_nth)

lemma hist_eq:
  "mainChatHistory (messages (begin_run u a))
     = map (\<lambda>m. \<lparr>c_role = role m, c_parts = map TextPart (parts m)\<rparr>) (messages a)"
  by (simp add: messages_begin_run mainChatHistory_snoc)

lemma issued_begin_run: "issued (begin_run u a) = issued a"
  by (simp add: begin_run_def handleRemoveImage_def)

lemma new_calls_st_fan_out:
  "drop (length (issued a)) (issued (st_fan_out u a)) =
     replicate NUM_AGENTS (initial_call (mainChatHistory (messages (begin_run u a))) (baseApiParts u a))"
  by (simp add: st_fan_out_def issue_initial_def issued_begin_run)

lemma new_calls_st_refine:
  "drop (length (issued a)) (issued (st_refine u a ia)) =
     replicate NUM_AGENTS (initial_call (mainChatHistory (messages (begin_run u a))) (baseApiParts u a))
     @ map_indexed (refinement_call (mainChatHistory (messages (begin_run u a))) (baseApiParts u a) ia) ia"
  by (simp add: st_refine_def issue_refinement_def st_fan_out_def issue_initial_def issued_begin_run)

lemma new_calls_st_synthesize:
  "drop (length (issued a)) (issued (st_synthesize u a ia ra)) =
     replicate NUM_AGENTS (initial_call (mainChatHistory (messages (begin_run u a))) (baseApiParts u a))
     @ map_indexed (refinement_call (mainChatHistory (messages (begin_run u a))) (baseApiParts u a) ia) ia
     @ [synthesizer_call (mainChatHistory (messages (begin_run u a))) (baseApiParts u a) ra]"
  by (simp add: st_synthesize_def enter_synthesis_def st_refine_def issue_refinement_def
        st_fan_out_def issue_initial_def issued_begin_run)

lemma issued_st_stream: "issued (st_stream u a ia ra cs) = issued (st_synthesize u a ia ra)"
  by (simp add: st_stream_def)

lemma issued_finish: "issued (finish ia ra g s) = issued s"
  by (simp add: finish_def)

lemma initial_call_run_calls:
  "initial_call (mainChatHistory (messages (begin_run u a))) (baseApiParts u a) \<in> run_calls u a"
  by (simp add: run_calls_def initial_call_def hist_eq)

lemma refinement_call_run_calls:
  "refinement_call (mainChatHistory (messages (begin_run u a))) (baseApiParts u a) ia x i \<in> run_calls u a"
  by (simp add: run_calls_def refinement_call_def refinementTurn_def hist_eq)

lemma synthesizer_call_run_calls:
  "synthesizer_call (mainChatHistory (messages (begin_run u a))) (baseApiParts u a) ra \<in> run_calls u a"
  by (simp add: run_calls_def synthesizer_call_def hist_eq)

lemma new_calls_begin_run: "drop (length (issued a)) (issued (begin_run u a)) = []"
  by (simp add: issued_begin_run)

lemma new_calls_published:
  assumes "s \<in> set (published u a ia ra cs)"
  shows "set (drop (length (issued a)) (issued s)) \<subseteq> run_calls u a"
proof -
  from assms consider "s = st_fan_out u a" | "s = st_refine u a ia" | "s = st_synthesize u a ia ra"
    | k where "s = st_stream u a ia ra (take (Suc k) cs)"
    by (auto simp: published_def)
  then show ?thesis
  proof cases
    case 1
    then show ?thesis by (auto simp: new_calls_st_fan_out initial_call_run_calls)
  next
    case 2
    then show ?thesis
      by (auto simp: new_calls_st_refine initial_call_run_calls set_map_indexed refinement_call_run_calls)
  next
    case 3
    then show ?thesis
      by (auto simp: new_calls_st_synthesize initial_call_run_calls set_map_indexed
            refinement_call_run_calls synthesizer_call_run_calls)
  next
    case 4
    then show ?thesis
      by (auto simp: issued_st_stream new_calls_st_synthesize initial_call_run_calls set_map_indexed
            refinement_call_run_calls synthesizer_call_run_calls)
  qed
qed

lemma new_calls_st_stream_sub:
  "set (drop (length (issued a)) (issued (st_stream u a ia ra cs))) \<subseteq> run_calls u a"
  by (auto simp: issued_st_stream new_calls_st_synthesize initial_call_run_calls set_map_indexed
            refinement_call_run_calls synthesizer_call_run_calls)

lemma new_calls_on_catch:
  "drop (length (issued a)) (issued (on_catch e s)) = drop (length (issued a)) (issued s)"
  by (simp add: issued_on_catch)

lemma new_calls_finish:
  "drop (length (issued a)) (issued (finish ia ra g s)) = drop (length (issued a)) (issued s)"
  by (simp add: issued_finish)

lemma st_fan_out_published: "st_fan_out u a \<in> set (published u a ia ra cs)"
  by (simp add: published_def)

lemma st_refine_published: "st_refine u a ia \<in> set (published u a ia ra cs)"
  by (simp add: published_def)

lemma st_synthesize_published: "st_synthesize u a ia ra \<in> set (published u a ia ra cs)"
  by (simp add: published_def)

lemma new_calls_trace:
  assumes "s \<in> set (snd (handleSubmit mc u a))"
  shows "set (drop (length (issued a)) (issued s)) \<subseteq> run_calls u a"
proof (cases rule: handleSubmit_cases [of u a mc])
  case Returned
  with assms show ?thesis by simp
next
  case (Constructor e)
  with assms have "s = on_catch e (begin_run u a)" by simp
  then show ?thesis by (simp add: issued_on_catch issued_begin_run)
next
  case (Initial e)
  with assms consider "s = st_fan_out u a" | "s = on_catch e (st_fan_out u a)" by auto
  then show ?thesis
    using new_calls_published [OF st_fan_out_published [of u a "[]" "[]" "[]"]]
    by cases (simp_all add: new_calls_on_catch)
next
  case (Refinement e ia)
  with assms consider "s = st_fan_out u a" | "s = st_refine u a ia" | "s = on_catch e (st_refine u a ia)"
    by auto
  then show ?thesis
    using new_calls_published [OF st_fan_out_published [of u a ia "[]" "[]"]]
      new_calls_published [OF st_refine_published [of u a ia "[]" "[]"]]
    by cases (simp_all add: new_calls_on_catch)
next
  case (Open e ia ra)
  with assms consider "s \<in> set (published u a ia ra [])" | "s = on_catch e (st_synthesize u a ia ra)"
    by auto
  then show ?thesis
    using new_calls_published [of s u a ia ra "[]"]
      new_calls_published [OF st_synthesize_published [of u a ia ra "[]"]]
    by cases (simp_all add: new_calls_on_catch)
next
  case (Stream e ia ra cs)
  with assms consider "s \<in> set (published u a ia ra cs)" | "s = on_catch e (st_stream u a ia ra cs)"
    by auto
  then show ?thesis
    using new_calls_published [of s u a ia ra cs] new_calls_st_stream_sub [of a u ia ra cs]
    by cases (simp_all add: new_calls_on_catch)
next
  case (Done ia ra cs)
  with assms consider "s \<in> set (published u a ia ra cs)"
    | "s = finish ia ra (collected_chunks cs) (st_stream u a ia ra cs)"
    by auto
  then show ?thesis
    using new_calls_published [of s u a ia ra cs] new_calls_st_stream_sub [of a u ia ra cs]
    by cases (simp_all add: new_calls_finish)
qed

lemma filter_neq_upt: "i < n \<Longrightarrow> filter (\<lambda>j. j \<noteq> i) [0..<n] = [0..<i] @ [Suc i..<n]"
proof -
  assume i: "i < n"
  have t: "take i [0..<n] = [0..<i]" using i by simp
  have "drop i [0..<n] = [i..<n]" by simp
  also have "\<dots> = i # [Suc i..<n]" using i by (rule upt_conv_Cons)
  finally have d: "drop i [0..<n] = i # [Suc i..<n]" .
  have "[0..<n] = take i [0..<n] @ drop i [0..<n]"
    by (rule append_take_drop_id [symmetric])
  then have "[0..<n] = [0..<i] @ i # [Suc i..<n]"
    unfolding t d .
  then show ?thesis by (simp add: filter_id_conv)
qed

lemma otherAnswers_eq:
  "otherAnswers xs i = map (\<lambda>j. xs ! j) (filter (\<lambda>j. j \<noteq> i) [0..<length xs])"
  by (simp add: otherAnswers_def filter_indexed_def zip_upt_nth filter_map comp_def)

lemma otherAnswers_take_drop:
  assumes "i < length xs"
  shows "otherAnswers xs i = take i xs @ drop (Suc i) xs"
proof -
  have 1: "map (\<lambda>j. xs ! j) [0..<i] = take i xs"
    using assms by (simp add: list_eq_iff_nth_eq)
  have 2: "map (\<lambda>j. xs ! j) [Suc i..<length xs] = drop (Suc i) xs"
    using assms by (simp add: list_eq_iff_nth_eq)
  show ?thesis using assms by (simp add: otherAnswers_eq filter_neq_upt 1 2)
qed

section \<open>Facts about inline attachments\<close>

lemma inline_ok_mono: "F \<subseteq> G \<Longrightarrow> inline_ok F p \<Longrightarrow> inline_ok G p"
  by (cases p) (auto simp: inline_ok_def)

lemma contents_ok_mono: "F \<subseteq> G \<Longrightarrow> contents_ok F cs \<Longrightarrow> contents_ok G cs"
  unfolding contents_ok_def using inline_ok_mono by blast

lemma app_ok_mono: "F \<subseteq> G \<Longrightarrow> app_ok F a \<Longrightarrow> app_ok G a"
  unfolding app_ok_def using contents_ok_mono by blast

lemma run_ok_mono: "F \<subseteq> G \<Longrightarrow> run_ok F r \<Longrightarrow> run_ok G r"
  using contents_ok_mono inline_ok_mono by (cases r) auto

lemma page_ok_mono: "F \<subseteq> G \<Longrightarrow> page_ok F p \<Longrightarrow> page_ok G p"
  unfolding page_ok_def using app_ok_mono run_ok_mono by blast

lemma contents_ok_history: "contents_ok F (mainChatHistory ms)"
  by (auto simp: contents_ok_def mainChatHistory_def inline_ok_def)

lemma contents_ok_snoc:
  "contents_ok F (hist @ [turn]) \<longleftrightarrow> contents_ok F hist \<and> (\<forall>p\<in>set (c_parts turn). inline_ok F p)"
  by (auto simp: contents_ok_def)

lemma base_ok:
  assumes "app_ok F a"
  shows "\<forall>p\<in>set (baseApiParts u a). inline_ok F p"
proof (cases "image a")
  case None
  then show ?thesis by (simp add: baseApiParts_def inline_ok_def)
next
  case img: (Some img)
  show ?thesis
  proof (cases "imageFile a")
    case None
    then show ?thesis using img by (simp add: baseApiParts_def inline_ok_def)
  next
    case (Some f)
    from assms Some have f: "f \<in> F" by (simp add: app_ok_def)
    from assms img obtain g where g: "g \<in> F" "data_url g = Some img" by (auto simp: app_ok_def)
    have io: "inline_ok F (InlineData (mime_type f) (nth_opt (split_on CHR '','' img) 1))"
      unfolding inline_ok_def using f g by auto
    have tp: "inline_ok F (TextPart u)" by (simp add: inline_ok_def)
    show ?thesis using img Some io tp by (auto simp: baseApiParts_def)
  qed
qed

lemma app_ok_begin_run: "app_ok F a \<Longrightarrow> app_ok F (begin_run u a)"
  by (simp add: app_ok_def begin_run_def handleRemoveImage_def)

lemma app_ok_on_catch: "app_ok F a \<Longrightarrow> app_ok F (on_catch e a)"
  by (simp add: app_ok_def on_catch_def)

lemma app_ok_finish: "app_ok F a \<Longrightarrow> app_ok F (finish ia ra gs a)"
  by (simp add: app_ok_def finish_def)

lemma app_ok_on_chunk: "app_ok F a \<Longrightarrow> on_chunk c (t, gs, a) = (t', gs', a') \<Longrightarrow> app_ok F a'"
  by (auto simp: app_ok_def on_chunk_def Let_def)

lemma app_ok_issue_initial:
  "app_ok F a \<Longrightarrow> contents_ok F hist \<Longrightarrow> \<forall>p\<in>set base. inline_ok F p \<Longrightarrow>
     app_ok F (issue_initial hist base a)"
  by (auto simp: app_ok_def issue_initial_def initial_call_def contents_ok_snoc)

lemma app_ok_issue_refinement:
  "app_ok F a \<Longrightarrow> contents_ok F hist \<Longrightarrow> \<forall>p\<in>set base. inline_ok F p \<Longrightarrow>
     app_ok F (issue_refinement hist base ia a)"
  by (auto simp: app_ok_def issue_refinement_def set_map_indexed refinement_call_def
        refinementTurn_def contents_ok_snoc inline_ok_def)

lemma app_ok_enter_synthesis:
  "app_ok F a \<Longrightarrow> contents_ok F hist \<Longrightarrow> \<forall>p\<in>set base. inline_ok F p \<Longrightarrow>
     app_ok F (enter_synthesis hist base ra a)"
  by (auto simp: app_ok_def enter_synthesis_def synthesizer_call_def contents_ok_snoc inline_ok_def)

lemma resume_ok:
  assumes "app_ok F a" "run_ok F run" "resume mc run a = (run', a')"
  shows "app_ok F a' \<and> run_ok F run'"
proof (cases run)
  case (AwaitInitial hist base)
  with assms show ?thesis
    by (cases "initial_join mc") (auto simp: app_ok_on_catch app_ok_issue_refinement)
next
  case (AwaitRefined hist base ia)
  with assms show ?thesis
    by (cases "refined_join mc (length ia)") (auto simp: app_ok_on_catch app_ok_enter_synthesis)
next
  case (AwaitStream ia ra)
  with assms show ?thesis
    by (cases "generateContentStream mc") (auto simp: app_ok_on_catch)
next
  case (InStream ia ra t gs cs failure)
  show ?thesis
  proof (cases cs)
    case Nil
    with assms InStream show ?thesis
      by (cases failure) (auto simp: app_ok_on_catch app_ok_finish)
  next
    case (Cons c cs')
    obtain t' gs' a'' where oc: "on_chunk c (t, gs, a) = (t', gs', a'')"
      by (cases "on_chunk c (t, gs, a)")
    with assms InStream Cons have "a' = a''" "run' = InStream ia ra t' gs' cs' failure" by auto
    then show ?thesis using app_ok_on_chunk [OF assms(1) oc] by simp
  qed
next
  case Ended
  with assms show ?thesis by auto
qed

lemma page_ok_submit: "page_ok F p \<Longrightarrow> page_ok F (submit u mc p)"
proof -
  assume ok: "page_ok F p"
  then have a: "app_ok F (app p)" by (simp add: page_ok_def)
  have b: "app_ok F (begin_run u (app p))" using a by (rule app_ok_begin_run)
  have base: "\<forall>x\<in>set (baseApiParts u (app p)). inline_ok F x" using a by (rule base_ok)
  have i: "app_ok F (issue_initial (mainChatHistory (messages (begin_run u (app p))))
                       (baseApiParts u (app p)) (begin_run u (app p)))"
    using b contents_ok_history base by (rule app_ok_issue_initial)
  show ?thesis
    using ok b i base app_ok_on_catch [OF b]
    by (auto simp: submit_def page_ok_def Let_def contents_ok_history split: option.splits)
qed

lemma page_ok_resume:
  assumes "page_ok F p"
  shows "page_ok F (step (Resume r) p)"
proof (cases "r < length (runs p)")
  case False
  with assms show ?thesis by (simp add: step_def)
next
  case True
  obtain mc run where mr: "runs p ! r = (mc, run)" by (cases "runs p ! r")
  obtain run' a' where res: "resume mc run (app p) = (run', a')" by (cases "resume mc run (app p)")
  have "(mc, run) \<in> set (runs p)" using True mr by (metis nth_mem)
  then have "run_ok F run" using assms by (auto simp: page_ok_def)
  moreover have "app_ok F (app p)" using assms by (simp add: page_ok_def)
  ultimately have ok': "app_ok F a' \<and> run_ok F run'" using resume_ok [of F "app p" run mc run' a'] res by blast
  have st: "step (Resume r) p = p\<lparr>app := a', runs := (runs p)[r := (mc, run')]\<rparr>"
    using True mr res by (simp add: step_def)
  have "\<forall>x\<in>set ((runs p)[r := (mc, run')]). run_ok F (snd x)"
  proof
    fix x assume "x \<in> set ((runs p)[r := (mc, run')])"
    then have "x = (mc, run') \<or> x \<in> set (runs p)"
      using set_update_subset_insert [of "runs p" r "(mc, run')"] by auto
    then show "run_ok F (snd x)" using ok' assms by (auto simp: page_ok_def)
  qed
  then show ?thesis using ok' assms by (simp add: st page_ok_def)
qed

lemma page_ok_select:
  assumes "page_ok F p"
  shows "page_ok (F \<union> {f. f = file \<and> file_size f \<le> MAX_FILE_SIZE}) (handleImageChange file p)"
proof (cases "file_size file > MAX_FILE_SIZE")
  case True
  then show ?thesis using page_ok_mono [OF _ assms, of "F \<union> {f. f = file \<and> file_size f \<le> MAX_FILE_SIZE}"]
    by (simp add: handleImageChange_def)
next
  case False
  let ?G = "F \<union> {f. f = file \<and> file_size f \<le> MAX_FILE_SIZE}"
  have sub: "F \<subseteq> ?G" by blast
  have fg: "file \<in> ?G" using False by simp
  from page_ok_mono [OF sub assms] have ok: "page_ok ?G p" .
  then have "app_ok ?G ((app p)\<lparr>imageFile := Some file\<rparr>)"
    using fg unfolding page_ok_def app_ok_def by simp
  then show ?thesis using ok fg False
    unfolding handleImageChange_def page_ok_def by simp
qed

lemma page_ok_onloadend:
  assumes "page_ok F p"
  shows "page_ok F (onloadend i p)"
proof (cases "i < length (readers p)")
  case False
  with assms show ?thesis by (simp add: onloadend_def)
next
  case True
  then have "readers p ! i \<in> F" using assms unfolding page_ok_def by (metis nth_mem subsetD)
  then have "app_ok F ((app p)\<lparr>image := data_url (readers p ! i)\<rparr>)"
    using assms unfolding page_ok_def app_ok_def by auto
  moreover have "set (take i (readers p) @ drop (Suc i) (readers p)) \<subseteq> F"
  proof -
    have "set (take i (readers p)) \<subseteq> set (readers p)" by (rule set_take_subset)
    moreover have "set (drop (Suc i) (readers p)) \<subseteq> set (readers p)" by (rule set_drop_subset)
    moreover have "set (readers p) \<subseteq> F" using assms by (simp add: page_ok_def)
    ultimately show ?thesis by auto
  qed
  ultimately show ?thesis using True assms by (simp add: onloadend_def page_ok_def)
qed

lemma page_ok_remove:
  "page_ok F p \<Longrightarrow> page_ok F (p\<lparr>app := handleRemoveImage (app p)\<rparr>)"
  by (simp add: page_ok_def app_ok_def handleRemoveImage_def)

lemma page_ok_step:
  assumes "page_ok F p"
  shows "page_ok (F \<union> {f. ev = SelectFile f \<and> file_size f \<le> MAX_FILE_SIZE}) (step ev p)"
proof (cases ev)
  case (Submit u mc)
  have "page_ok F (step ev p)" using page_ok_submit [OF assms] Submit by (simp add: step_def)
  then show ?thesis by (rule page_ok_mono [rotated]) simp
next
  case (Resume r)
  have "page_ok F (step ev p)" using page_ok_resume [OF assms] Resume by simp
  then show ?thesis by (rule page_ok_mono [rotated]) simp
next
  case (SelectFile fl)
  have "{f. ev = SelectFile f \<and> file_size f \<le> MAX_FILE_SIZE} = {f. f = fl \<and> file_size f \<le> MAX_FILE_SIZE}"
    using SelectFile by auto
  then show ?thesis using page_ok_select [OF assms, of fl] SelectFile by (simp add: step_def)
next
  case (LoadEnd i)
  have "page_ok F (step ev p)" using page_ok_onloadend [OF assms] LoadEnd by (simp add: step_def)
  then show ?thesis by (rule page_ok_mono [rotated]) simp
next
  case RemoveImage
  have "page_ok F (step ev p)" using page_ok_remove [OF assms] RemoveImage by (simp add: step_def)
  then show ?thesis by (rule page_ok_mono [rotated]) simp
qed

lemma accepted_Cons:
  "accepted (ev # evs) = {f. ev = SelectFile f \<and> file_size f \<le> MAX_FILE_SIZE} \<union> accepted evs"
  by (auto simp: accepted_def)

lemma page_ok_run_events:
  "page_ok F p \<Longrightarrow> page_ok (F \<union> accepted evs) (run_events evs p)"
proof (induction evs arbitrary: F p)
  case Nil
  then show ?case by (simp add: run_events_def accepted_def)
next
  case (Cons ev evs)
  from page_ok_step [OF Cons.prems] have "page_ok (F \<union> {f. ev = SelectFile f \<and> file_size f \<le> MAX_FILE_SIZE}) (step ev p)" .
  from Cons.IH [OF this] show ?case
    by (simp add: run_events_def accepted_Cons Un_assoc)
qed

lemma page_ok_initial: "page_ok {} initial_Page"
  by (simp add: page_ok_def app_ok_def initial_Page_def initial_App_def)

lemma submit_rejected:
  "rejected_input u (app p) \<Longrightarrow> step (Submit u mc) p = p"
  by (simp add: step_def submit_def)

section \<open>Facts about the examples\<close>

lemma upt_4: "[0..<4] = [0, 1, 2, 3]"
  by (simp add: upt_rec)

lemma NUM_AGENTS_upt: "[0..<NUM_AGENTS] = [0, 1, 2, 3]"
  by (simp add: NUM_AGENTS_def upt_4)

lemma constant_join:
  "Promise_all (map (\<lambda>i. (l i, Inr v)) [0..<n]) = Fulfilled (replicate n v)"
proof -
  have "\<forall>p\<in>set (map (\<lambda>i. (l i, Inr v)) [0..<n]). \<exists>w. snd p = Inr w" by auto
  from Promise_all_fulfilled [OF this] show ?thesis
    by (simp add: comp_def map_replicate_const)
qed

lemma example_initial_join: "initial_join example_client = Fulfilled [Some ''4'', Some ''4'', Some ''4'', Some ''4'']"
  using constant_join [of "\<lambda>i. 4 - i" "Some ''4''" NUM_AGENTS]
  by (simp add: initial_join_def example_client_def NUM_AGENTS_def numeral_eq_Suc)

lemma example_refined_join: "refined_join example_client n = Fulfilled (replicate n (Some ''4''))"
  using constant_join [of "\<lambda>i. 4 - i" "Some ''4''" n]
  by (simp add: refined_join_def example_client_def)

lemma failing_initial_join: "initial_join failing_client = Fulfilled [Some ''4'', Some ''4'', Some ''4'', Some ''4'']"
  using example_initial_join by (simp add: initial_join_def failing_client_def)

lemma failing_refined_join: "refined_join failing_client n = Fulfilled (replicate n (Some ''4''))"
  using example_refined_join [of n] by (simp add: refined_join_def failing_client_def)

lemma messages_initial_App: "messages initial_App = []"
  by (simp add: initial_App_def)

lemma image_initial_App: "image initial_App = None"
  by (simp add: initial_App_def)

lemma not_rejected: "\<not> rejected_input ''2+2?'' initial_App"
  by (simp add: rejected_input_def trim_def is_space_def)

lemma failing_run:
  "handleSubmit failing_client ''2+2?'' initial_App =
     (Caught (Error ''boom''),
      published ''2+2?'' initial_App [Some ''4'', Some ''4'', Some ''4'', Some ''4''] [Some ''4'', Some ''4'', Some ''4'', Some ''4'']
        [\<lparr>chunk_text = Some ''The answer is '', groundingChunks = Some [ex_web]\<rparr>]
      @ [on_catch (Error ''boom'')
           (st_stream ''2+2?'' initial_App [Some ''4'', Some ''4'', Some ''4'', Some ''4''] [Some ''4'', Some ''4'', Some ''4'', Some ''4'']
              [\<lparr>chunk_text = Some ''The answer is '', groundingChunks = Some [ex_web]\<rparr>])])"
proof (cases rule: handleSubmit_cases [of "''2+2?''" initial_App failing_client])
  case (Stream e ia ra cs)
  from Stream(3) have ia: "ia = [Some ''4'', Some ''4'', Some ''4'', Some ''4'']" by (simp add: failing_initial_join)
  from Stream(4) have ra: "ra = [Some ''4'', Some ''4'', Some ''4'', Some ''4'']"
    by (auto simp: failing_refined_join ia)
  from Stream(5) have cs: "cs = [\<lparr>chunk_text = Some ''The answer is '', groundingChunks = Some [ex_web]\<rparr>]"
    and e: "e = Error ''boom''"
    by (simp_all add: failing_client_def)
  show ?thesis using Stream(6) by (simp add: ia ra cs e)
qed (simp_all add: not_rejected failing_initial_join failing_refined_join,
     simp_all add: failing_client_def example_client_def)

lemma example_run:
  "handleSubmit example_client ''2+2?'' initial_App =
     (Completed,
      published ''2+2?'' initial_App [Some ''4'', Some ''4'', Some ''4'', Some ''4''] [Some ''4'', Some ''4'', Some ''4'', Some ''4'']
        [\<lparr>chunk_text = Some ''The answer is '', groundingChunks = Some [ex_web]\<rparr>,
         \<lparr>chunk_text = Some ''4.'', groundingChunks = Some [ex_web]\<rparr>]
      @ [finish [Some ''4'', Some ''4'', Some ''4'', Some ''4''] [Some ''4'', Some ''4'', Some ''4'', Some ''4'']
           (collected_chunks [\<lparr>chunk_text = Some ''The answer is '', groundingChunks = Some [ex_web]\<rparr>,
                              \<lparr>chunk_text = Some ''4.'', groundingChunks = Some [ex_web]\<rparr>])
           (st_stream ''2+2?'' initial_App [Some ''4'', Some ''4'', Some ''4'', Some ''4''] [Some ''4'', Some ''4'', Some ''4'', Some ''4'']
              [\<lparr>chunk_text = Some ''The answer is '', groundingChunks = Some [ex_web]\<rparr>,
               \<lparr>chunk_text = Some ''4.'', groundingChunks = Some [ex_web]\<rparr>])])"
proof (cases rule: handleSubmit_cases [of "''2+2?''" initial_App example_client])
  case (Done ia ra cs)
  from Done(3) have ia: "ia = [Some ''4'', Some ''4'', Some ''4'', Some ''4'']" by (simp add: example_initial_join)
  from Done(4) have ra: "ra = [Some ''4'', Some ''4'', Some ''4'', Some ''4'']"
    by (auto simp: example_refined_join ia)
  from Done(5) have cs: "cs = [\<lparr>chunk_text = Some ''The answer is '', groundingChunks = Some [ex_web]\<rparr>,
                               \<lparr>chunk_text = Some ''4.'', groundingChunks = Some [ex_web]\<rparr>]"
    by (simp add: example_client_def)
  show ?thesis using Done(6) by (simp add: ia ra cs)
qed (simp_all add: not_rejected example_initial_join example_refined_join,
     simp_all add: example_client_def)

lemma upt_3: "[0..<3] = [0, 1, 2]"
  by (simp add: upt_rec)

lemma st_fan_out_in_trace:
  "\<not> rejected_input u a \<Longrightarrow> constructor_error mc = None \<Longrightarrow>
     st_fan_out u a \<in> set (snd (handleSubmit mc u a))"
  by (simp add: handleSubmit_def Let_def st_fan_out_def)




lemma example_constructor: "constructor_error example_client = None"
  by (simp add: example_client_def)

lemma example_stream:
  "generateContentStream example_client =
     Inr ([\<lparr>chunk_text = Some ''The answer is '', groundingChunks = Some [ex_web]\<rparr>,
           \<lparr>chunk_text = Some ''4.'', groundingChunks = Some [ex_web]\<rparr>], None)"
  by (simp add: example_client_def)

lemma run_events_Nil: "run_events [] p = p"
  by (simp add: run_events_def)

lemma run_events_Cons: "run_events (ev # evs) p = run_events evs (step ev p)"
  by (simp add: run_events_def)

lemma not_rejected_text: "trim u \<noteq> [] \<Longrightarrow> \<not> rejected_input u a"
  by (simp add: rejected_input_def)

lemma step_submit:
  assumes "\<not> isLoading (app p)" "\<not> rejected_input u (app p)" "constructor_error mc = None"
  shows "step (Submit u mc) p =
           p\<lparr>app := st_fan_out u (app p),
             runs := runs p @ [(mc, AwaitInitial (mainChatHistory (messages (begin_run u (app p))))
                                      (baseApiParts u (app p)))]\<rparr>"
  using assms by (simp add: step_def submit_def Let_def st_fan_out_def)

lemma step_resume:
  assumes "r < length (runs p)" "runs p ! r = (mc, run)" "resume mc run (app p) = (run', a')"
  shows "step (Resume r) p = p\<lparr>app := a', runs := (runs p)[r := (mc, run')]\<rparr>"
  using assms by (simp add: step_def)

lemma isLoading_enter_synthesis: "isLoading (enter_synthesis hist base ra a) = False"
  by (simp add: enter_synthesis_def)

lemma trim_a: "trim ''a'' \<noteq> []" and trim_b: "trim ''b'' \<noteq> []" and trim_hi: "trim ''hi'' \<noteq> []"
  and trim_blank: "trim ''  '' = []"
  by (simp_all add: trim_def is_space_def)

lemma small_run:
  "issued (app (run_events [SelectFile small_file, LoadEnd 0, Submit ''hi'' example_client] initial_Page))
     = replicate NUM_AGENTS
         \<lparr>systemInstruction = INITIAL_SYSTEM_INSTRUCTION, streaming = False,
          contents = [\<lparr>c_role = User,
                       c_parts = [InlineData ''image/png'' (Some ''AAAA''), TextPart ''hi'']\<rparr>]\<rparr>"
proof -
  let ?a = "\<lparr>messages = [], isLoading = False, loadingStatus = [],
             image = Some ''data:image/png;base64,AAAA'', imageFile = Some small_file, issued = []\<rparr>"
  let ?p1 = "\<lparr>app = initial_App\<lparr>imageFile := Some small_file\<rparr>, runs = [], readers = [small_file]\<rparr>"
  let ?p2 = "\<lparr>app = ?a, runs = [], readers = []\<rparr>"
  have s1: "step (SelectFile small_file) initial_Page = ?p1"
    by (simp add: step_def handleImageChange_def MAX_FILE_SIZE_def initial_Page_def small_file_def)
  have s2: "step (LoadEnd 0) ?p1 = ?p2"
    by (simp add: step_def onloadend_def small_file_def initial_App_def)
  have s3: "app (step (Submit ''hi'' example_client) ?p2) = st_fan_out ''hi'' ?a"
    using step_submit [of ?p2 "''hi''" example_client]
    by (simp add: not_rejected_text trim_hi example_constructor)
  have b: "baseApiParts ''hi'' ?a = [InlineData ''image/png'' (Some ''AAAA''), TextPart ''hi'']"
    by (simp add: baseApiParts_def trim_hi small_file_def nth_opt_def)
  have h: "mainChatHistory (messages ?a @ [userMessage ''hi'' ?a]) = []"
    by (simp add: mainChatHistory_def)
  have "issued (st_fan_out ''hi'' ?a)
          = replicate NUM_AGENTS
              \<lparr>systemInstruction = INITIAL_SYSTEM_INSTRUCTION, streaming = False,
               contents = [\<lparr>c_role = User,
                       c_parts = [InlineData ''image/png'' (Some ''AAAA''), TextPart ''hi'']\<rparr>]\<rparr>"
    unfolding issued_st_fan_out h b by (simp add: initial_call_def)
  then show ?thesis
    by (simp only: run_events_Cons run_events_Nil s1 s2 s3)
qed

section \<open>One call of the handler is the machine with no interleaving\<close>

text \<open>
  From a page whose form is enabled, a submission followed by resuming that same call,
  at least as often as the handler publishes states, leaves the application in the
  final state of the handler run alone. So the facts about the handler run alone are facts
  about the machine whenever no other event comes in between.
\<close>

lemma run_events_append: "run_events (xs @ ys) p = run_events ys (run_events xs p)"
  by (simp add: run_events_def)

lemma resumes_add: "resumes r (m + n) = resumes r m @ resumes r n"
  by (simp add: resumes_def replicate_add)

lemma resumes_Suc: "resumes r (Suc n) = Resume r # resumes r n"
  by (simp add: resumes_def)

lemma resumes_0: "resumes r 0 = []"
  by (simp add: resumes_def)

lemma step_resume_absent: "\<not> r < length (runs p) \<Longrightarrow> step (Resume r) p = p"
  by (simp add: step_def)

lemma step_resume_ended:
  "r < length (runs p) \<Longrightarrow> runs p ! r = (mc, Ended) \<Longrightarrow> step (Resume r) p = p"
  by (simp add: step_def list_update_same_conv [THEN iffD2])

lemma resumes_absent: "\<not> r < length (runs p) \<Longrightarrow> run_events (resumes r n) p = p"
  by (induction n) (simp_all add: resumes_0 resumes_Suc run_events_Nil run_events_Cons step_resume_absent)

lemma resumes_ended:
  "r < length (runs p) \<Longrightarrow> runs p ! r = (mc, Ended) \<Longrightarrow> run_events (resumes r n) p = p"
  by (induction n) (simp_all add: resumes_0 resumes_Suc run_events_Nil run_events_Cons step_resume_ended)

lemma resume_chunks:
  assumes "r < length (runs p)" "runs p ! r = (mc, InStream ia ra t g cs failure)"
    "messages (app p) = ms @ [model_turn t]"
  shows "run_events (resumes r (length cs)) p =
           p\<lparr>app := (app p)\<lparr>messages := ms @ [model_turn (t @ concat (map appended cs))]\<rparr>,
             runs := (runs p)[r := (mc, InStream ia ra (t @ concat (map appended cs))
                                          (foldl push_grounding g cs) [] failure)]\<rparr>"
  using assms
proof (induction cs arbitrary: p t g)
  case Nil
  have "(app p)\<lparr>messages := ms @ [model_turn t]\<rparr> = app p"
    using Nil.prems(3) by (cases "app p") simp
  moreover have "(runs p)[r := (mc, InStream ia ra t g [] failure)] = runs p"
    using Nil.prems(1,2) by (simp add: list_update_same_conv [THEN iffD2])
  ultimately show ?case by (simp add: resumes_0 run_events_Nil)
next
  case (Cons c cs)
  let ?a = "(app p)\<lparr>messages := ms @ [model_turn (t @ appended c)]\<rparr>"
  let ?p = "p\<lparr>app := ?a,
              runs := (runs p)[r := (mc, InStream ia ra (t @ appended c) (push_grounding g c) cs failure)]\<rparr>"
  have st: "step (Resume r) p = ?p"
    using Cons.prems step_resume [of r p mc "InStream ia ra t g (c # cs) failure"]
    by (simp add: on_chunk_model_turn)
  have "run_events (resumes r (length cs)) ?p =
           ?p\<lparr>app := (app ?p)\<lparr>messages := ms @ [model_turn ((t @ appended c) @ concat (map appended cs))]\<rparr>,
             runs := (runs ?p)[r := (mc, InStream ia ra ((t @ appended c) @ concat (map appended cs))
                                          (foldl push_grounding (push_grounding g c) cs) [] failure)]\<rparr>"
    using Cons.prems(1) by (intro Cons.IH) simp_all
  then show ?case
    by (simp add: resumes_Suc run_events_Cons st)
qed

lemma drive:
  assumes "r < length (runs q)" "runs q ! r = (mc, run)" "resume mc run (app q) = (run', a')"
  shows "run_events (resumes r (Suc m)) q
           = run_events (resumes r m) (q\<lparr>app := a', runs := (runs q)[r := (mc, run')]\<rparr>)"
  using step_resume [OF assms] by (simp add: resumes_Suc run_events_Cons)

lemma driven_out:
  assumes "r < length (runs q)" "runs q ! r = (mc, Ended)"
  shows "app (run_events (resumes r m) q) = app q"
  using resumes_ended [OF assms] by simp

lemma final_state_eq: "snd (handleSubmit mc u a) = tr @ [s] \<Longrightarrow> final_state mc u a = s"
  by (simp add: final_state_def)

lemma machine_runs_handler:
  assumes idle: "\<not> isLoading (app p)"
    and n: "length (snd (handleSubmit mc u (app p))) \<le> n"
  shows "app (run_events (Submit u mc # resumes (length (runs p)) n) p) = final_state mc u (app p)"
proof (cases rule: handleSubmit_cases [of u "app p" mc])
  case Returned
  then have "step (Submit u mc) p = p" by (simp add: submit_rejected)
  then show ?thesis using Returned
    by (simp add: run_events_Cons resumes_absent final_state_def)
next
  case (Constructor e)
  let ?q = "p\<lparr>app := on_catch e (begin_run u (app p)), runs := runs p @ [(mc, Ended)]\<rparr>"
  have "step (Submit u mc) p = ?q"
    using idle Constructor(1,2) by (simp add: step_def submit_def Let_def)
  moreover have "app (run_events (resumes (length (runs p)) n) ?q) = app ?q"
    using driven_out [where mc = mc and r = "length (runs p)" and m = n and q = "?q"] by simp
  ultimately show ?thesis using Constructor(3)
    by (simp add: run_events_Cons final_state_def)
next
  case (Initial e)
  let ?r = "length (runs p)"
  let ?H = "mainChatHistory (messages (begin_run u (app p)))"
  let ?B = "baseApiParts u (app p)"
  let ?q1 = "p\<lparr>app := st_fan_out u (app p), runs := runs p @ [(mc, AwaitInitial ?H ?B)]\<rparr>"
  let ?q2 = "p\<lparr>app := on_catch e (st_fan_out u (app p)),
                 runs := runs p @ [(mc, Ended)]\<rparr>"
  define m where "m = n - 1"
  from n Initial(4) have m: "n = Suc m" by (simp add: m_def)
  have s: "step (Submit u mc) p = ?q1"
    using idle Initial(1,2) by (rule step_submit)
  have d1: "run_events (resumes ?r (Suc m)) ?q1 = run_events (resumes ?r m) ?q2"
    using drive [where run = "AwaitInitial ?H ?B" and q = "?q1" and r = ?r and mc = mc]
    by (simp add: Initial(3))
  have "app (run_events (resumes ?r m) ?q2) = app ?q2"
    using driven_out [where mc = mc and r = ?r and m = m and q = "?q2"] by simp
  then show ?thesis using Initial(4)
    by (simp add: run_events_Cons s m d1 final_state_def)
next
  case (Refinement e ia)
  let ?r = "length (runs p)"
  let ?H = "mainChatHistory (messages (begin_run u (app p)))"
  let ?B = "baseApiParts u (app p)"
  let ?q1 = "p\<lparr>app := st_fan_out u (app p), runs := runs p @ [(mc, AwaitInitial ?H ?B)]\<rparr>"
  let ?q2 = "p\<lparr>app := st_refine u (app p) ia,
                 runs := runs p @ [(mc, AwaitRefined ?H ?B ia)]\<rparr>"
  let ?q3 = "p\<lparr>app := on_catch e (st_refine u (app p) ia),
                 runs := runs p @ [(mc, Ended)]\<rparr>"
  define m where "m = n - 2"
  from n Refinement(5) have m: "n = Suc (Suc m)" by (simp add: m_def)
  have s: "step (Submit u mc) p = ?q1"
    using idle Refinement(1,2) by (rule step_submit)
  have d1: "run_events (resumes ?r (Suc (Suc m))) ?q1 = run_events (resumes ?r (Suc m)) ?q2"
    using drive [where run = "AwaitInitial ?H ?B" and q = "?q1" and r = ?r and mc = mc]
    by (simp add: Refinement(3) st_refine_def)
  have d2: "run_events (resumes ?r (Suc m)) ?q2 = run_events (resumes ?r m) ?q3"
    using drive [where run = "AwaitRefined ?H ?B ia" and q = "?q2" and r = ?r and mc = mc]
    by (simp add: Refinement(4))
  have "app (run_events (resumes ?r m) ?q3) = app ?q3"
    using driven_out [where mc = mc and r = ?r and m = m and q = "?q3"] by simp
  then show ?thesis using Refinement(5)
    by (simp add: run_events_Cons s m d1 d2 final_state_def)
next
  case (Open e ia ra)
  let ?r = "length (runs p)"
  let ?H = "mainChatHistory (messages (begin_run u (app p)))"
  let ?B = "baseApiParts u (app p)"
  let ?q1 = "p\<lparr>app := st_fan_out u (app p), runs := runs p @ [(mc, AwaitInitial ?H ?B)]\<rparr>"
  let ?q2 = "p\<lparr>app := st_refine u (app p) ia,
                 runs := runs p @ [(mc, AwaitRefined ?H ?B ia)]\<rparr>"
  let ?q3 = "p\<lparr>app := st_synthesize u (app p) ia ra,
                 runs := runs p @ [(mc, AwaitStream ia ra)]\<rparr>"
  let ?q4 = "p\<lparr>app := on_catch e (st_synthesize u (app p) ia ra),
                 runs := runs p @ [(mc, Ended)]\<rparr>"
  define m where "m = n - 3"
  from n Open(6) have m: "n = Suc (Suc (Suc m))" by (simp add: length_published m_def)
  have s: "step (Submit u mc) p = ?q1"
    using idle Open(1,2) by (rule step_submit)
  have d1: "run_events (resumes ?r (Suc (Suc (Suc m)))) ?q1 = run_events (resumes ?r (Suc (Suc m))) ?q2"
    using drive [where run = "AwaitInitial ?H ?B" and q = "?q1" and r = ?r and mc = mc]
    by (simp add: Open(3) st_refine_def)
  have d2: "run_events (resumes ?r (Suc (Suc m))) ?q2 = run_events (resumes ?r (Suc m)) ?q3"
    using drive [where run = "AwaitRefined ?H ?B ia" and q = "?q2" and r = ?r and mc = mc]
    by (simp add: Open(4) st_synthesize_def)
  have d3: "run_events (resumes ?r (Suc m)) ?q3 = run_events (resumes ?r m) ?q4"
    using drive [where run = "AwaitStream ia ra" and q = "?q3" and r = ?r and mc = mc]
    by (simp add: Open(5))
  have "app (run_events (resumes ?r m) ?q4) = app ?q4"
    using driven_out [where mc = mc and r = ?r and m = m and q = "?q4"] by simp
  then show ?thesis using Open(6)
    by (simp add: run_events_Cons s m d1 d2 d3 final_state_def)
next
  case (Stream e ia ra cs)
  let ?r = "length (runs p)"
  let ?H = "mainChatHistory (messages (begin_run u (app p)))"
  let ?B = "baseApiParts u (app p)"
  let ?q1 = "p\<lparr>app := st_fan_out u (app p), runs := runs p @ [(mc, AwaitInitial ?H ?B)]\<rparr>"
  let ?q2 = "p\<lparr>app := st_refine u (app p) ia,
                 runs := runs p @ [(mc, AwaitRefined ?H ?B ia)]\<rparr>"
  let ?q3 = "p\<lparr>app := st_synthesize u (app p) ia ra,
                 runs := runs p @ [(mc, AwaitStream ia ra)]\<rparr>"
  let ?q4 = "p\<lparr>app := st_synthesize u (app p) ia ra,
                 runs := runs p @ [(mc, InStream ia ra [] [] cs (Some e))]\<rparr>"
  let ?q5 = "p\<lparr>app := st_stream u (app p) ia ra cs,
                 runs := runs p @ [(mc, InStream ia ra (concat (map appended cs))
                                            (collected_chunks cs) [] (Some e))]\<rparr>"
  let ?q6 = "p\<lparr>app := on_catch e (st_stream u (app p) ia ra cs),
                 runs := runs p @ [(mc, Ended)]\<rparr>"
  define m where "m = n - (length cs + 4)"
  from n Stream(6) have m: "n = Suc (Suc (Suc (length cs + Suc m)))"
    by (simp add: length_published m_def)
  have s: "step (Submit u mc) p = ?q1"
    using idle Stream(1,2) by (rule step_submit)
  have d1: "run_events (resumes ?r (Suc (Suc (Suc (length cs + Suc m))))) ?q1
              = run_events (resumes ?r (Suc (Suc (length cs + Suc m)))) ?q2"
    using drive [where run = "AwaitInitial ?H ?B" and q = "?q1" and r = ?r and mc = mc]
    by (simp add: Stream(3) st_refine_def)
  have d2: "run_events (resumes ?r (Suc (Suc (length cs + Suc m)))) ?q2
              = run_events (resumes ?r (Suc (length cs + Suc m))) ?q3"
    using drive [where run = "AwaitRefined ?H ?B ia" and q = "?q2" and r = ?r and mc = mc]
    by (simp add: Stream(4) st_synthesize_def)
  have d3: "run_events (resumes ?r (Suc (length cs + Suc m))) ?q3
              = run_events (resumes ?r (length cs + Suc m)) ?q4"
    using drive [where run = "AwaitStream ia ra" and q = "?q3" and r = ?r and mc = mc]
    by (simp add: Stream(5))
  have ms: "messages (app ?q4) = (messages (app p) @ [userMessage u (app p)]) @ [model_turn []]"
    by (simp add: messages_st_synthesize)
  have d4: "run_events (resumes ?r (length cs)) ?q4 = ?q5"
    using resume_chunks [of ?r ?q4 mc ia ra "[]" "[]" cs "Some e", OF _ _ ms]
    by (simp add: st_stream_def collected_chunks_def)
  have d5: "run_events (resumes ?r (Suc m)) ?q5 = run_events (resumes ?r m) ?q6"
    using drive [where run = "InStream ia ra (concat (map appended cs)) (collected_chunks cs) [] (Some e)" and q = "?q5" and r = ?r and mc = mc]
    by (simp)
  have d6: "app (run_events (resumes ?r m) ?q6) = app ?q6"
    using driven_out [where mc = mc and r = ?r and m = m and q = "?q6"] by simp
  have "run_events (Submit u mc # resumes ?r n) p
          = run_events (resumes ?r (Suc (Suc (Suc (length cs + Suc m))))) ?q1"
    by (simp only: run_events_Cons s m)
  also have "\<dots> = run_events (resumes ?r (Suc (Suc (length cs + Suc m)))) ?q2" by (rule d1)
  also have "\<dots> = run_events (resumes ?r (Suc (length cs + Suc m))) ?q3" by (rule d2)
  also have "\<dots> = run_events (resumes ?r (length cs + Suc m)) ?q4" by (rule d3)
  also have "\<dots> = run_events (resumes ?r (Suc m)) ?q5"
    by (simp only: resumes_add run_events_append d4)
  also have "\<dots> = run_events (resumes ?r m) ?q6" by (rule d5)
  finally have "app (run_events (Submit u mc # resumes ?r n) p) = app ?q6"
    using d6 by simp
  then show ?thesis using Stream(6) by (simp add: final_state_def)
next
  case (Done ia ra cs)
  let ?r = "length (runs p)"
  let ?H = "mainChatHistory (messages (begin_run u (app p)))"
  let ?B = "baseApiParts u (app p)"
  let ?q1 = "p\<lparr>app := st_fan_out u (app p), runs := runs p @ [(mc, AwaitInitial ?H ?B)]\<rparr>"
  let ?q2 = "p\<lparr>app := st_refine u (app p) ia,
                 runs := runs p @ [(mc, AwaitRefined ?H ?B ia)]\<rparr>"
  let ?q3 = "p\<lparr>app := st_synthesize u (app p) ia ra,
                 runs := runs p @ [(mc, AwaitStream ia ra)]\<rparr>"
  let ?q4 = "p\<lparr>app := st_synthesize u (app p) ia ra,
                 runs := runs p @ [(mc, InStream ia ra [] [] cs None)]\<rparr>"
  let ?q5 = "p\<lparr>app := st_stream u (app p) ia ra cs,
                 runs := runs p @ [(mc, InStream ia ra (concat (map appended cs))
                                            (collected_chunks cs) [] None)]\<rparr>"
  let ?q6 = "p\<lparr>app := finish ia ra (collected_chunks cs) (st_stream u (app p) ia ra cs),
                 runs := runs p @ [(mc, Ended)]\<rparr>"
  define m where "m = n - (length cs + 4)"
  from n Done(6) have m: "n = Suc (Suc (Suc (length cs + Suc m)))"
    by (simp add: length_published m_def)
  have s: "step (Submit u mc) p = ?q1"
    using idle Done(1,2) by (rule step_submit)
  have d1: "run_events (resumes ?r (Suc (Suc (Suc (length cs + Suc m))))) ?q1
              = run_events (resumes ?r (Suc (Suc (length cs + Suc m)))) ?q2"
    using drive [where run = "AwaitInitial ?H ?B" and q = "?q1" and r = ?r and mc = mc]
    by (simp add: Done(3) st_refine_def)
  have d2: "run_events (resumes ?r (Suc (Suc (length cs + Suc m)))) ?q2
              = run_events (resumes ?r (Suc (length cs + Suc m))) ?q3"
    using drive [where run = "AwaitRefined ?H ?B ia" and q = "?q2" and r = ?r and mc = mc]
    by (simp add: Done(4) st_synthesize_def)
  have d3: "run_events (resumes ?r (Suc (length cs + Suc m))) ?q3
              = run_events (resumes ?r (length cs + Suc m)) ?q4"
    using drive [where run = "AwaitStream ia ra" and q = "?q3" and r = ?r and mc = mc]
    by (simp add: Done(5))
  have ms: "messages (app ?q4) = (messages (app p) @ [userMessage u (app p)]) @ [model_turn []]"
    by (simp add: messages_st_synthesize)
  have d4: "run_events (resumes ?r (length cs)) ?q4 = ?q5"
    using resume_chunks [of ?r ?q4 mc ia ra "[]" "[]" cs None, OF _ _ ms]
    by (simp add: st_stream_def collected_chunks_def)
  have d5: "run_events (resumes ?r (Suc m)) ?q5 = run_events (resumes ?r m) ?q6"
    using drive [where run = "InStream ia ra (concat (map appended cs)) (collected_chunks cs) [] None" and q = "?q5" and r = ?r and mc = mc]
    by (simp)
  have d6: "app (run_events (resumes ?r m) ?q6) = app ?q6"
    using driven_out [where mc = mc and r = ?r and m = m and q = "?q6"] by simp
  have "run_events (Submit u mc # resumes ?r n) p
          = run_events (resumes ?r (Suc (Suc (Suc (length cs + Suc m))))) ?q1"
    by (simp only: run_events_Cons s m)
  also have "\<dots> = run_events (resumes ?r (Suc (Suc (length cs + Suc m)))) ?q2" by (rule d1)
  also have "\<dots> = run_events (resumes ?r (Suc (length cs + Suc m))) ?q3" by (rule d2)
  also have "\<dots> = run_events (resumes ?r (length cs + Suc m)) ?q4" by (rule d3)
  also have "\<dots> = run_events (resumes ?r (Suc m)) ?q5"
    by (simp only: resumes_add run_events_append d4)
  also have "\<dots> = run_events (resumes ?r m) ?q6" by (rule d5)
  finally have "app (run_events (Submit u mc # resumes ?r n) p) = app ?q6"
    using d6 by simp
  then show ?thesis using Done(6) by (simp add: final_state_def)
qed

section \<open>Facts about the steps of the page\<close>

lemma resume_ends:
  assumes "run \<noteq> Ended" "fst (resume mc run a) = Ended"
  shows "(\<exists>ia ra t gs. run = InStream ia ra t gs [] None \<and> snd (resume mc run a) = finish ia ra gs a)
       \<or> (\<exists>e. ((\<exists>hist base. run = AwaitInitial hist base \<and> initial_join mc = Rejected e)
               \<or> (\<exists>hist base ia. run = AwaitRefined hist base ia
                     \<and> refined_join mc (length ia) = Rejected e)
               \<or> (\<exists>ia ra. run = AwaitStream ia ra \<and> generateContentStream mc = Inl e)
               \<or> (\<exists>ia ra t gs. run = InStream ia ra t gs [] (Some e)))
              \<and> snd (resume mc run a) = on_catch e a)"
proof (cases run)
  case (AwaitInitial hist base)
  with assms(2) show ?thesis by (cases "initial_join mc") simp_all
next
  case (AwaitRefined hist base ia)
  with assms(2) show ?thesis by (cases "refined_join mc (length ia)") simp_all
next
  case (AwaitStream ia ra)
  with assms(2) show ?thesis
    by (cases "generateContentStream mc") (simp_all split: prod.splits)
next
  case (InStream ia ra t gs cs failure)
  show ?thesis
  proof (cases cs)
    case Nil
    with InStream show ?thesis by (cases failure) simp_all
  next
    case (Cons c cs')
    with InStream assms(2) show ?thesis by (simp split: prod.splits)
  qed
next
  case Ended
  with assms(1) show ?thesis by simp
qed

lemma sources_work_set_last_text:
  "map (\<lambda>m. (sources m, work m)) (set_last_text t ms) = map (\<lambda>m. (sources m, work m)) ms"
proof (cases ms rule: rev_cases)
  case Nil
  then show ?thesis by (simp add: set_last_text_def)
next
  case (snoc ms' m)
  then show ?thesis by (simp add: set_last_text_snoc)
qed

lemma resume_keeps_sources_and_work:
  assumes "\<forall>ia ra t gs. run \<noteq> InStream ia ra t gs [] None"
  shows "\<exists>new. map (\<lambda>m. (sources m, work m)) (messages (snd (resume mc run a)))
                 = map (\<lambda>m. (sources m, work m)) (messages a) @ new
               \<and> set new \<subseteq> {(None, None)}"
proof (cases run)
  case (AwaitInitial hist base)
  then show ?thesis
    by (cases "initial_join mc")
       (simp_all add: on_catch_def error_turn_def issue_refinement_def)
next
  case (AwaitRefined hist base ia)
  then show ?thesis
    by (cases "refined_join mc (length ia)")
       (simp_all add: on_catch_def error_turn_def enter_synthesis_def placeholderMessage_def)
next
  case (AwaitStream ia ra)
  then show ?thesis
    by (cases "generateContentStream mc")
       (simp_all add: on_catch_def error_turn_def split: prod.splits)
next
  case (InStream ia ra t gs cs failure)
  show ?thesis
  proof (cases cs)
    case Nil
    with InStream assms obtain e where "failure = Some e" by (cases failure) auto
    with InStream Nil show ?thesis by (simp add: on_catch_def error_turn_def)
  next
    case (Cons c cs')
    with InStream show ?thesis
      by (simp add: on_chunk_def Let_def sources_work_set_last_text)
  qed
next
  case Ended
  then show ?thesis by simp
qed

lemma step_keeps_sources_and_work:
  assumes "\<forall>r mc ia ra t gs. ev = Resume r \<and> r < length (runs p)
             \<longrightarrow> runs p ! r \<noteq> (mc, InStream ia ra t gs [] None)"
  shows "\<exists>new. map (\<lambda>m. (sources m, work m)) (messages (app (step ev p)))
                 = map (\<lambda>m. (sources m, work m)) (messages (app p)) @ new
               \<and> set new \<subseteq> {(None, None)}"
proof (cases ev)
  case (Submit u mc)
  show ?thesis
  proof (cases "isLoading (app p) \<or> rejected_input u (app p)")
    case True
    then show ?thesis by (auto simp: Submit step_def submit_def)
  next
    case False
    then show ?thesis
      by (cases "constructor_error mc")
         (simp_all add: Submit step_def submit_def Let_def begin_run_def handleRemoveImage_def
            issue_initial_def on_catch_def userMessage_def error_turn_def)
  qed
next
  case (Resume r)
  show ?thesis
  proof (cases "r < length (runs p)")
    case False
    then show ?thesis by (simp add: Resume step_def)
  next
    case True
    obtain mc run where rr: "runs p ! r = (mc, run)" by (cases "runs p ! r")
    from assms Resume True rr have "\<forall>ia ra t gs. run \<noteq> InStream ia ra t gs [] None" by auto
    from resume_keeps_sources_and_work [OF this, of mc "app p"] show ?thesis
      using True rr by (cases "resume mc run (app p)") (simp add: Resume step_def)
  qed
next
  case (SelectFile f)
  then show ?thesis by (simp add: step_def handleImageChange_def)
next
  case (LoadEnd i)
  then show ?thesis by (simp add: step_def onloadend_def)
next
  case RemoveImage
  then show ?thesis by (simp add: step_def handleRemoveImage_def)
qed





section \<open>Facts about the text of a request\<close>

lemma join_case:
  "join sep ys = (case ys of [] \<Rightarrow> [] | y # rest \<Rightarrow> y @ concat (map ((@) sep) rest))"
  by (induction sep ys rule: join.induct) simp_all

lemma of_char_digit: "d < 10 \<Longrightarrow> of_char (digit d) = (48 + d :: nat)"
proof -
  assume "d < 10"
  then have "d \<in> {0, 1, 2, 3, 4, 5, 6, 7, 8, 9}" by auto
  then show ?thesis by (auto simp: digit_def)
qed

lemma digit_in: "d < 10 \<Longrightarrow> digit d \<in> set ''0123456789''"
proof -
  assume "d < 10"
  then have "d \<in> {0, 1, 2, 3, 4, 5, 6, 7, 8, 9}" by auto
  then show ?thesis by (auto simp: digit_def)
qed

lemma digit_not_0: "0 < d \<Longrightarrow> d < 10 \<Longrightarrow> digit d \<noteq> CHR ''0''"
proof -
  assume "0 < d" "d < 10"
  then have "d \<in> {1, 2, 3, 4, 5, 6, 7, 8, 9}" by auto
  then show ?thesis by (auto simp: digit_def)
qed

lemma string_of_nat_not_Nil: "string_of_nat n \<noteq> []"
  by (subst string_of_nat.simps) simp

lemma string_of_nat_digits: "set (string_of_nat n) \<subseteq> set ''0123456789''"
proof (induction n rule: string_of_nat.induct)
  case (1 n)
  show ?case
  proof (cases "n < 10")
    case True
    then show ?thesis using digit_in [of n] by (subst string_of_nat.simps) simp
  next
    case False
    have "n mod 10 < 10" by simp
    from digit_in [OF this] 1 [OF False] False show ?thesis
      by (subst string_of_nat.simps) simp
  qed
qed

lemma string_of_nat_value:
  "foldl (\<lambda>v c. 10 * v + (of_char c - 48)) 0 (string_of_nat n) = n"
proof (induction n rule: string_of_nat.induct)
  case (1 n)
  show ?case
  proof (cases "n < 10")
    case True
    then show ?thesis by (subst string_of_nat.simps) (simp add: of_char_digit)
  next
    case False
    have m: "n mod 10 < 10" by simp
    from 1 [OF False] False show ?thesis
      by (subst string_of_nat.simps) (simp add: of_char_digit [OF m])
  qed
qed

lemma string_of_nat_no_leading_zero: "0 < n \<Longrightarrow> hd (string_of_nat n) \<noteq> CHR ''0''"
proof (induction n rule: string_of_nat.induct)
  case (1 n)
  show ?case
  proof (cases "n < 10")
    case True
    with 1(2) show ?thesis using digit_not_0 [of n] by (subst string_of_nat.simps) simp
  next
    case False
    then have "0 < n div 10" by (simp add: div_greater_zero_iff)
    from 1(1) [OF False this] False show ?thesis
      by (subst string_of_nat.simps) (simp add: string_of_nat_not_Nil)
  qed
qed

section \<open>Facts about interleaved calls of the handler\<close>

lemma step_delta:
  assumes "r < length (runs p)" "runs p ! r = (mc, InStream ia ra t gs (c # cs) failure)"
  shows "step (Resume r) p =
     p\<lparr>app := (app p)\<lparr>messages := set_last_text (t @ appended c) (messages (app p))\<rparr>,
       runs := (runs p)[r := (mc, InStream ia ra (t @ appended c) (push_grounding gs c) cs failure)]\<rparr>"
proof -
  have "resume mc (InStream ia ra t gs (c # cs) failure) (app p)
          = (InStream ia ra (t @ appended c) (push_grounding gs c) cs failure,
             (app p)\<lparr>messages := set_last_text (t @ appended c) (messages (app p))\<rparr>)"
    by (simp add: on_chunk_def Let_def)
  from step_resume [OF assms this] show ?thesis .
qed

text \<open>
  The page after a first submission has passed its two joins, a second submission has
  been accepted, and the stream of the first has been opened.
\<close>

lemma racing_page:
  "length (runs (run_events [Submit ''a'' example_client, Resume 0, Resume 0,
                             Submit ''b'' example_client, Resume 0] initial_Page)) = 2"
  "runs (run_events [Submit ''a'' example_client, Resume 0, Resume 0,
                     Submit ''b'' example_client, Resume 0] initial_Page) ! 0
     = (example_client,
        InStream [Some ''4'', Some ''4'', Some ''4'', Some ''4'']
          [Some ''4'', Some ''4'', Some ''4'', Some ''4''] [] []
          [\<lparr>chunk_text = Some ''The answer is '', groundingChunks = Some [ex_web]\<rparr>,
           \<lparr>chunk_text = Some ''4.'', groundingChunks = Some [ex_web]\<rparr>] None)"
  "messages (app (run_events [Submit ''a'' example_client, Resume 0, Resume 0,
                              Submit ''b'' example_client, Resume 0] initial_Page))
     = [\<lparr>role = User, parts = [''a''], msg_image = None, sources = None, work = None\<rparr>,
        \<lparr>role = Model, parts = [[]], msg_image = None, sources = None, work = None\<rparr>,
        \<lparr>role = User, parts = [''b''], msg_image = None, sources = None, work = None\<rparr>]"
proof -
  let ?ia = "[Some ''4'', Some ''4'', Some ''4'', Some ''4'']"
  let ?H = "mainChatHistory (messages (begin_run ''a'' initial_App))"
  let ?B = "baseApiParts ''a'' initial_App"
  let ?a3 = "enter_synthesis ?H ?B ?ia (issue_refinement ?H ?B ?ia (st_fan_out ''a'' initial_App))"
  let ?H' = "mainChatHistory (messages (begin_run ''b'' ?a3))"
  let ?B' = "baseApiParts ''b'' ?a3"
  let ?cs = "[\<lparr>chunk_text = Some ''The answer is '', groundingChunks = Some [ex_web]\<rparr>,
              \<lparr>chunk_text = Some ''4.'', groundingChunks = Some [ex_web]\<rparr>]"
  let ?p1 = "\<lparr>app = st_fan_out ''a'' initial_App,
              runs = [(example_client, AwaitInitial ?H ?B)], readers = []\<rparr>"
  let ?p2 = "\<lparr>app = issue_refinement ?H ?B ?ia (st_fan_out ''a'' initial_App),
              runs = [(example_client, AwaitRefined ?H ?B ?ia)], readers = []\<rparr>"
  let ?p3 = "\<lparr>app = ?a3, runs = [(example_client, AwaitStream ?ia ?ia)], readers = []\<rparr>"
  let ?p4 = "\<lparr>app = st_fan_out ''b'' ?a3,
              runs = [(example_client, AwaitStream ?ia ?ia),
                      (example_client, AwaitInitial ?H' ?B')], readers = []\<rparr>"
  let ?p5 = "\<lparr>app = st_fan_out ''b'' ?a3,
              runs = [(example_client, InStream ?ia ?ia [] [] ?cs None),
                      (example_client, AwaitInitial ?H' ?B')], readers = []\<rparr>"
  have s1: "step (Submit ''a'' example_client) initial_Page = ?p1"
    using step_submit [of initial_Page "''a''" example_client]
    by (simp add: not_rejected_text trim_a example_constructor initial_Page_def initial_App_def)
  have s2: "step (Resume 0) ?p1 = ?p2"
    using step_resume [of 0 ?p1 example_client "AwaitInitial ?H ?B"]
    by (simp add: example_initial_join)
  have s3: "step (Resume 0) ?p2 = ?p3"
    using step_resume [of 0 ?p2 example_client "AwaitRefined ?H ?B ?ia"]
    by (simp add: example_refined_join)
  have s4: "step (Submit ''b'' example_client) ?p3 = ?p4"
    using step_submit [of ?p3 "''b''" example_client]
    by (simp add: not_rejected_text trim_b example_constructor isLoading_enter_synthesis)
  have s5: "step (Resume 0) ?p4 = ?p5"
    using step_resume [of 0 ?p4 example_client "AwaitStream ?ia ?ia"]
    by (simp add: example_stream)
  have m4: "messages (st_fan_out ''b'' ?a3)
              = [userMessage ''a'' initial_App, placeholderMessage, userMessage ''b'' ?a3]"
    by (simp add: messages_st_fan_out enter_synthesis_def issue_refinement_def initial_App_def)
  have e5: "run_events [Submit ''a'' example_client, Resume 0, Resume 0,
                        Submit ''b'' example_client, Resume 0] initial_Page = ?p5"
    by (simp only: run_events_Cons run_events_Nil s1 s2 s3 s4 s5)
  show "length (runs (run_events [Submit ''a'' example_client, Resume 0, Resume 0,
                             Submit ''b'' example_client, Resume 0] initial_Page)) = 2"
    unfolding e5 by simp
  show "runs (run_events [Submit ''a'' example_client, Resume 0, Resume 0,
                     Submit ''b'' example_client, Resume 0] initial_Page) ! 0
     = (example_client, InStream ?ia ?ia [] [] ?cs None)"
    unfolding e5 by simp
  show "messages (app (run_events [Submit ''a'' example_client, Resume 0, Resume 0,
                              Submit ''b'' example_client, Resume 0] initial_Page))
     = [\<lparr>role = User, parts = [''a''], msg_image = None, sources = None, work = None\<rparr>,
        \<lparr>role = Model, parts = [[]], msg_image = None, sources = None, work = None\<rparr>,
        \<lparr>role = User, parts = [''b''], msg_image = None, sources = None, work = None\<rparr>]"
    unfolding e5
    by (simp add: m4 userMessage_def placeholderMessage_def image_initial_App truthy_str_def
          messages_initial_App st_fan_out_def issue_initial_def begin_run_def handleRemoveImage_def
          enter_synthesis_def issue_refinement_def)
qed

lemma textless_run:
  "handleSubmit textless_client ''2+2?'' initial_App =
     (Completed,
      published ''2+2?'' initial_App [Some ''4'', Some ''4'', Some ''4'', Some ''4'']
        [Some ''4'', Some ''4'', Some ''4'', Some ''4'']
        [\<lparr>chunk_text = Some ''The answer is '', groundingChunks = None\<rparr>,
         \<lparr>chunk_text = None, groundingChunks = Some [ex_web]\<rparr>,
         \<lparr>chunk_text = Some ''4.'', groundingChunks = None\<rparr>]
      @ [finish [Some ''4'', Some ''4'', Some ''4'', Some ''4''] [Some ''4'', Some ''4'', Some ''4'', Some ''4'']
           (collected_chunks [\<lparr>chunk_text = Some ''The answer is '', groundingChunks = None\<rparr>,
         \<lparr>chunk_text = None, groundingChunks = Some [ex_web]\<rparr>,
         \<lparr>chunk_text = Some ''4.'', groundingChunks = None\<rparr>])
           (st_stream ''2+2?'' initial_App [Some ''4'', Some ''4'', Some ''4'', Some ''4'']
              [Some ''4'', Some ''4'', Some ''4'', Some ''4'']
              [\<lparr>chunk_text = Some ''The answer is '', groundingChunks = None\<rparr>,
         \<lparr>chunk_text = None, groundingChunks = Some [ex_web]\<rparr>,
         \<lparr>chunk_text = Some ''4.'', groundingChunks = None\<rparr>])])"
proof -
  have pj: "initial_join textless_client = initial_join example_client"
    "\<And>n. refined_join textless_client n = refined_join example_client n"
    by (simp_all add: initial_join_def refined_join_def textless_client_def)
  show ?thesis
  proof (cases rule: handleSubmit_cases [of "''2+2?''" initial_App textless_client])
    case (Done ia ra cs)
    from Done(3) have ia: "ia = [Some ''4'', Some ''4'', Some ''4'', Some ''4'']"
      by (simp add: pj example_initial_join)
    from Done(4) have ra: "ra = [Some ''4'', Some ''4'', Some ''4'', Some ''4'']"
      by (auto simp: pj example_refined_join ia)
    from Done(5) have cs: "cs = [\<lparr>chunk_text = Some ''The answer is '', groundingChunks = None\<rparr>,
         \<lparr>chunk_text = None, groundingChunks = Some [ex_web]\<rparr>,
         \<lparr>chunk_text = Some ''4.'', groundingChunks = None\<rparr>]"
      by (simp add: textless_client_def)
    show ?thesis using Done(6) by (simp add: ia ra cs)
  qed (simp_all add: not_rejected pj example_initial_join example_refined_join,
       simp_all add: textless_client_def example_client_def)
qed



section \<open>Facts about failed runs\<close>

lemma catch_step:
  assumes "r < length (runs p)" "runs p ! r = (mc, run)" "run \<noteq> Ended"
    "\<forall>ia ra t gs. run \<noteq> InStream ia ra t gs [] None"
    "snd (runs (step (Resume r) p) ! r) = Ended"
  shows "\<exists>e. ((\<exists>hist base. run = AwaitInitial hist base \<and> initial_join mc = Rejected e)
             \<or> (\<exists>hist base ia. run = AwaitRefined hist base ia
                   \<and> refined_join mc (length ia) = Rejected e)
             \<or> (\<exists>ia ra. run = AwaitStream ia ra \<and> generateContentStream mc = Inl e)
             \<or> (\<exists>ia ra t gs. run = InStream ia ra t gs [] (Some e)))
            \<and> step (Resume r) p =
                p\<lparr>app := (app p)\<lparr>isLoading := False,
                                  messages := messages (app p) @ [error_turn e]\<rparr>,
                  runs := (runs p)[r := (mc, Ended)]\<rparr>"
proof -
  obtain run' a' where res: "resume mc run (app p) = (run', a')"
    by (cases "resume mc run (app p)")
  note st = step_resume [OF assms(1,2) res]
  from assms(5) assms(1) have run': "run' = Ended" by (simp add: st)
  from resume_ends [OF assms(3), of mc "app p"] res run' assms(4)
  obtain e where e: "(\<exists>hist base. run = AwaitInitial hist base \<and> initial_join mc = Rejected e)
             \<or> (\<exists>hist base ia. run = AwaitRefined hist base ia
                   \<and> refined_join mc (length ia) = Rejected e)
             \<or> (\<exists>ia ra. run = AwaitStream ia ra \<and> generateContentStream mc = Inl e)
             \<or> (\<exists>ia ra t gs. run = InStream ia ra t gs [] (Some e))"
    and a': "a' = on_catch e (app p)"
    by auto
  have "step (Resume r) p =
                p\<lparr>app := (app p)\<lparr>isLoading := False,
                                  messages := messages (app p) @ [error_turn e]\<rparr>,
                  runs := (runs p)[r := (mc, Ended)]\<rparr>"
    by (simp add: st run' a' on_catch_def)
  with e show ?thesis by blast
qed

lemma submit_constructor_failure:
  assumes "\<not> isLoading (app p)" "\<not> rejected_input u (app p)" "constructor_error mc = Some e"
  shows "step (Submit u mc) p =
     p\<lparr>app := (app p)\<lparr>messages := messages (app p) @ [userMessage u (app p), error_turn e],
                       isLoading := False, image := None, imageFile := None\<rparr>,
       runs := runs p @ [(mc, Ended)]\<rparr>"
  using assms
  by (simp add: step_def submit_def Let_def on_catch_def begin_run_def handleRemoveImage_def)

lemma failed_run_log:
  assumes nr: "\<not> rejected_input u a"
  shows "(fst (handleSubmit mc u a) = Caught e) =
           (constructor_error mc = Some e
            \<or> (constructor_error mc = None \<and> initial_join mc = Rejected e)
            \<or> (constructor_error mc = None
                \<and> (\<exists>ia. initial_join mc = Fulfilled ia \<and> refined_join mc (length ia) = Rejected e))
            \<or> (constructor_error mc = None
                \<and> (\<exists>ia ra. initial_join mc = Fulfilled ia
                       \<and> refined_join mc (length ia) = Fulfilled ra)
                \<and> generateContentStream mc = Inl e)
            \<or> (\<exists>cs. constructor_error mc = None
                \<and> (\<exists>ia ra. initial_join mc = Fulfilled ia
                       \<and> refined_join mc (length ia) = Fulfilled ra)
                \<and> generateContentStream mc = Inr (cs, Some e)))"
    (is "?caught = (?S0 \<or> ?S1 \<or> ?S2 \<or> ?S3 \<or> (\<exists>cs. ?S4 cs))")
  and "constructor_error mc = Some e
         \<or> (constructor_error mc = None \<and> initial_join mc = Rejected e)
         \<or> (constructor_error mc = None
             \<and> (\<exists>ia. initial_join mc = Fulfilled ia \<and> refined_join mc (length ia) = Rejected e))
       \<Longrightarrow> messages (final_state mc u a) = messages a @ [userMessage u a, error_turn e]"
  and "constructor_error mc = None
         \<and> (\<exists>ia ra. initial_join mc = Fulfilled ia \<and> refined_join mc (length ia) = Fulfilled ra)
         \<and> generateContentStream mc = Inl e
       \<Longrightarrow> messages (final_state mc u a)
             = messages a @ [userMessage u a, model_turn [], error_turn e]"
  and "constructor_error mc = None
         \<and> (\<exists>ia ra. initial_join mc = Fulfilled ia \<and> refined_join mc (length ia) = Fulfilled ra)
         \<and> generateContentStream mc = Inr (cs, Some e)
       \<Longrightarrow> messages (final_state mc u a)
             = messages a @ [userMessage u a,
                  model_turn (concat (map (\<lambda>c. case chunk_text c of None \<Rightarrow> ''undefined''
                                              | Some d \<Rightarrow> d) cs)),
                  error_turn e]"
  and "fst (handleSubmit mc u a) = Caught e
       \<Longrightarrow> isLoading (final_state mc u a) = False
           \<and> (\<forall>s\<in>set (snd (handleSubmit mc u a)).
                \<forall>m\<in>set (drop (length (messages a)) (messages s)).
                  work m = None \<and> sources m = None)"
proof -
  have app_eq: "appended = (\<lambda>c. case chunk_text c of None \<Rightarrow> ''undefined'' | Some d \<Rightarrow> d)"
    by (rule ext) (simp add: appended_def js_string_def)
  show "?caught = (?S0 \<or> ?S1 \<or> ?S2 \<or> ?S3 \<or> (\<exists>cs. ?S4 cs))"
  proof (cases rule: handleSubmit_cases [of u a mc])
    case Returned
    with nr show ?thesis by simp
  next
    case (Constructor e')
    then show ?thesis by auto
  next
    case (Initial e')
    then show ?thesis by auto
  next
    case (Refinement e' ia)
    then show ?thesis by auto
  next
    case (Open e' ia ra)
    then show ?thesis by auto
  next
    case (Stream e' ia ra cs)
    then show ?thesis by auto
  next
    case (Done ia ra cs)
    then show ?thesis by auto
  qed
  show "messages (final_state mc u a) = messages a @ [userMessage u a, error_turn e]"
    if "?S0 \<or> ?S1 \<or> ?S2"
  proof (cases rule: handleSubmit_cases [of u a mc])
    case Returned
    with nr show ?thesis by simp
  next
    case (Constructor e')
    with that have "e' = e" by auto
    then show ?thesis
      by (simp add: final_state_def Constructor(3) messages_on_catch messages_begin_run)
  next
    case (Initial e')
    with that have "e' = e" by auto
    then show ?thesis
      by (simp add: final_state_def Initial(4) messages_on_catch messages_st_fan_out)
  next
    case (Refinement e' ia)
    with that have "e' = e" by auto
    then show ?thesis
      by (simp add: final_state_def Refinement(5) messages_on_catch messages_st_refine)
  next
    case (Open e' ia ra)
    with that show ?thesis by auto
  next
    case (Stream e' ia ra cs)
    with that show ?thesis by auto
  next
    case (Done ia ra cs)
    with that show ?thesis by auto
  qed
  show "messages (final_state mc u a)
             = messages a @ [userMessage u a, model_turn [], error_turn e]"
    if "?S3"
  proof (cases rule: handleSubmit_cases [of u a mc])
    case (Open e' ia ra)
    with that have "e' = e" by auto
    then show ?thesis
      by (simp add: final_state_def Open(6) messages_on_catch messages_st_synthesize)
  qed (use nr that in auto)
  show "messages (final_state mc u a)
             = messages a @ [userMessage u a,
                  model_turn (concat (map (\<lambda>c. case chunk_text c of None \<Rightarrow> ''undefined''
                                              | Some d \<Rightarrow> d) cs)),
                  error_turn e]"
    if "?S4 cs"
  proof (cases rule: handleSubmit_cases [of u a mc])
    case (Stream e' ia ra cs')
    with that have "e' = e" "cs' = cs" by auto
    then show ?thesis
      by (simp add: final_state_def Stream(6) messages_on_catch messages_st_stream app_eq)
  qed (use nr that in auto)
  show "isLoading (final_state mc u a) = False
           \<and> (\<forall>s\<in>set (snd (handleSubmit mc u a)).
                \<forall>m\<in>set (drop (length (messages a)) (messages s)).
                  work m = None \<and> sources m = None)"
    if c: "fst (handleSubmit mc u a) = Caught e"
  proof (cases rule: handleSubmit_cases [of u a mc])
    case (Constructor e')
    have "\<forall>s\<in>set (snd (handleSubmit mc u a)).
            \<forall>m\<in>set (drop (length (messages a)) (messages s)). work m = None \<and> sources m = None"
      by (simp add: Constructor(3) messages_on_catch messages_begin_run userMessage_def error_turn_def)
    moreover have "isLoading (final_state mc u a) = False"
      by (simp add: final_state_def Constructor(3) isLoading_on_catch)
    ultimately show ?thesis by blast
  next
    case (Initial e')
    have "\<forall>s\<in>set (snd (handleSubmit mc u a)).
            \<forall>m\<in>set (drop (length (messages a)) (messages s)). work m = None \<and> sources m = None"
      by (simp add: Initial(4) messages_on_catch messages_st_fan_out userMessage_def error_turn_def)
    moreover have "isLoading (final_state mc u a) = False"
      by (simp add: final_state_def Initial(4) isLoading_on_catch)
    ultimately show ?thesis by blast
  next
    case (Refinement e' ia)
    have "\<forall>s\<in>set (snd (handleSubmit mc u a)).
            \<forall>m\<in>set (drop (length (messages a)) (messages s)). work m = None \<and> sources m = None"
      by (simp add: Refinement(5) messages_on_catch messages_st_fan_out messages_st_refine
            userMessage_def error_turn_def)
    moreover have "isLoading (final_state mc u a) = False"
      by (simp add: final_state_def Refinement(5) isLoading_on_catch)
    ultimately show ?thesis by blast
  next
    case (Open e' ia ra)
    have "\<forall>s\<in>set (snd (handleSubmit mc u a)).
            \<forall>m\<in>set (drop (length (messages a)) (messages s)). work m = None \<and> sources m = None"
      using published_nothing_attached [of _ u a ia ra "[]"]
      by (simp add: Open(6) messages_on_catch messages_st_synthesize userMessage_def error_turn_def
            model_turn_def)
    moreover have "isLoading (final_state mc u a) = False"
      by (simp add: final_state_def Open(6) isLoading_on_catch)
    ultimately show ?thesis by blast
  next
    case (Stream e' ia ra cs)
    have "\<forall>s\<in>set (snd (handleSubmit mc u a)).
            \<forall>m\<in>set (drop (length (messages a)) (messages s)). work m = None \<and> sources m = None"
      using published_nothing_attached [of _ u a ia ra cs]
      by (simp add: Stream(6) messages_on_catch messages_st_stream userMessage_def error_turn_def
            model_turn_def)
    moreover have "isLoading (final_state mc u a) = False"
      by (simp add: final_state_def Stream(6) isLoading_on_catch)
    ultimately show ?thesis by blast
  qed (use nr c in simp_all)
qed

lemma quota_initial_join: "initial_join quota_client = Rejected (Error ''quota'')"
proof -
  have "snd (generateContent quota_client INITIAL_SYSTEM_INSTRUCTION 2) = Inl (Error ''quota'')"
    by (simp add: quota_client_def)
  from initial_join_rejected [OF _ this] obtain e' j where
    r: "initial_join quota_client = Rejected e'"
    and j: "snd (generateContent quota_client INITIAL_SYSTEM_INSTRUCTION j) = Inl e'"
    by (auto simp: NUM_AGENTS_def)
  from j have "e' = Error ''quota''" by (simp add: quota_client_def split: if_splits)
  with r show ?thesis by simp
qed

text \<open>
  For a call that runs with no other event in between and reaches the stream: the state
  published after the \<open>k\<close>-th chunk shows, in the model turn of the run, what line 339 has
  appended for the first \<open>k\<close> chunks, and the length of that text never decreases.
\<close>

lemma visible_text_of_run_alone:
  assumes "\<not> rejected_input u a" "constructor_error mc = None"
    "initial_join mc = Fulfilled ia" "refined_join mc (length ia) = Fulfilled ra"
    "generateContentStream mc = Inr (cs, failure)"
  shows "length (snd (handleSubmit mc u a)) = 3 + length cs + 1
    \<and> (\<forall>k<length cs.
          messages (snd (handleSubmit mc u a) ! (3 + k))
            = messages a @ [userMessage u a,
                            model_turn (concat (map appended (take (Suc k) cs)))]
          \<and> visible_text (snd (handleSubmit mc u a) ! (3 + k))
              = concat (map appended (take (Suc k) cs)))
    \<and> (\<forall>j k. j \<le> k \<and> k < length cs \<longrightarrow>
          length (visible_text (snd (handleSubmit mc u a) ! (3 + j)))
            \<le> length (visible_text (snd (handleSubmit mc u a) ! (3 + k))))"
proof -
  from run_reaching_stream [OF assms] obtain end_state where
    tr: "snd (handleSubmit mc u a) = published u a ia ra cs @ [end_state]" by blast
  have nth: "snd (handleSubmit mc u a) ! (3 + k) = st_stream u a ia ra (take (Suc k) cs)"
    if "k < length cs" for k
    using that by (simp add: tr nth_append length_published published_nth)
  have 1: "length (snd (handleSubmit mc u a)) = 3 + length cs + 1"
    by (simp add: tr length_published)
  have 2: "\<forall>k<length cs.
          messages (snd (handleSubmit mc u a) ! (3 + k))
            = messages a @ [userMessage u a,
                            model_turn (concat (map appended (take (Suc k) cs)))]
          \<and> visible_text (snd (handleSubmit mc u a) ! (3 + k))
              = concat (map appended (take (Suc k) cs))"
    by (simp add: nth messages_st_stream visible_text_st_stream)
  have 3: "\<forall>j k. j \<le> k \<and> k < length cs \<longrightarrow>
          length (visible_text (snd (handleSubmit mc u a) ! (3 + j)))
            \<le> length (visible_text (snd (handleSubmit mc u a) ! (3 + k)))"
  proof (intro allI impI)
    fix j k assume jk: "j \<le> k \<and> k < length cs"
    then have "j < length cs" "k < length cs" "Suc j \<le> Suc k" by simp_all
    then show "length (visible_text (snd (handleSubmit mc u a) ! (3 + j)))
            \<le> length (visible_text (snd (handleSubmit mc u a) ! (3 + k)))"
      using length_concat_take_mono [of "Suc j" "Suc k" appended cs]
      by (simp add: nth visible_text_st_stream)
  qed
  show ?thesis by (intro conjI 1 2 3)
qed

section \<open>Claims\<close>

text \<open>
  C1. The claim is that no second run can start while one is in flight, the time of the
  synthesis stream included. The only gate is the \<^verbatim>\<open>disabled={isLoading}\<close> of the
  form, and line 320 clears \<^verbatim>\<open>isLoading\<close> before the stream is opened. After a first
  submission has passed its two joins the flag is false with one run in flight; a second
  submission is then accepted and two runs are in flight; and the next delta of the first
  run is written by lines 345-349 over the text of the last turn of the log, which is now
  the second user turn.
\<close>

theorem second_submission_accepted_during_stream:
  "isLoading (app (run_events [Submit ''a'' example_client, Resume 0, Resume 0] initial_Page)) = False
   \<and> in_flight (run_events [Submit ''a'' example_client, Resume 0, Resume 0] initial_Page) = 1
   \<and> in_flight (run_events [Submit ''a'' example_client, Resume 0, Resume 0,
                             Submit ''b'' example_client] initial_Page) = 2
   \<and> map (\<lambda>m. (role m, parts m))
        (messages (app (run_events [Submit ''a'' example_client, Resume 0, Resume 0,
                                    Submit ''b'' example_client, Resume 0, Resume 0] initial_Page)))
      = [(User, [''a'']), (Model, [[]]), (User, [''The answer is ''])]"
proof -
  let ?ia = "[Some ''4'', Some ''4'', Some ''4'', Some ''4'']"
  let ?H = "mainChatHistory (messages (begin_run ''a'' initial_App))"
  let ?B = "baseApiParts ''a'' initial_App"
  let ?a3 = "enter_synthesis ?H ?B ?ia (issue_refinement ?H ?B ?ia (st_fan_out ''a'' initial_App))"
  let ?H' = "mainChatHistory (messages (begin_run ''b'' ?a3))"
  let ?B' = "baseApiParts ''b'' ?a3"
  let ?cs = "[\<lparr>chunk_text = Some ''The answer is '', groundingChunks = Some [ex_web]\<rparr>,
              \<lparr>chunk_text = Some ''4.'', groundingChunks = Some [ex_web]\<rparr>]"
  let ?p1 = "\<lparr>app = st_fan_out ''a'' initial_App,
              runs = [(example_client, AwaitInitial ?H ?B)], readers = []\<rparr>"
  let ?p2 = "\<lparr>app = issue_refinement ?H ?B ?ia (st_fan_out ''a'' initial_App),
              runs = [(example_client, AwaitRefined ?H ?B ?ia)], readers = []\<rparr>"
  let ?p3 = "\<lparr>app = ?a3, runs = [(example_client, AwaitStream ?ia ?ia)], readers = []\<rparr>"
  let ?p4 = "\<lparr>app = st_fan_out ''b'' ?a3,
              runs = [(example_client, AwaitStream ?ia ?ia),
                      (example_client, AwaitInitial ?H' ?B')], readers = []\<rparr>"
  let ?p5 = "\<lparr>app = st_fan_out ''b'' ?a3,
              runs = [(example_client, InStream ?ia ?ia [] [] ?cs None),
                      (example_client, AwaitInitial ?H' ?B')], readers = []\<rparr>"
  have s1: "step (Submit ''a'' example_client) initial_Page = ?p1"
    using step_submit [of initial_Page "''a''" example_client]
    by (simp add: not_rejected_text trim_a example_constructor initial_Page_def initial_App_def)
  have s2: "step (Resume 0) ?p1 = ?p2"
    using step_resume [of 0 ?p1 example_client "AwaitInitial ?H ?B"]
    by (simp add: example_initial_join)
  have s3: "step (Resume 0) ?p2 = ?p3"
    using step_resume [of 0 ?p2 example_client "AwaitRefined ?H ?B ?ia"]
    by (simp add: example_refined_join)
  have s4: "step (Submit ''b'' example_client) ?p3 = ?p4"
    using step_submit [of ?p3 "''b''" example_client]
    by (simp add: not_rejected_text trim_b example_constructor isLoading_enter_synthesis)
  have s5: "step (Resume 0) ?p4 = ?p5"
    using step_resume [of 0 ?p4 example_client "AwaitStream ?ia ?ia"]
    by (simp add: example_stream)
  have m4: "messages (st_fan_out ''b'' ?a3)
              = [userMessage ''a'' initial_App, placeholderMessage, userMessage ''b'' ?a3]"
    by (simp add: messages_st_fan_out enter_synthesis_def issue_refinement_def initial_App_def)
  have s6: "messages (app (step (Resume 0) ?p5))
              = set_last_text ''The answer is '' (messages (st_fan_out ''b'' ?a3))"
    by (simp add: step_def on_chunk_def Let_def appended_def js_string_def)
  have e3: "run_events [Submit ''a'' example_client, Resume 0, Resume 0] initial_Page = ?p3"
    by (simp only: run_events_Cons run_events_Nil s1 s2 s3)
  have e4: "run_events [Submit ''a'' example_client, Resume 0, Resume 0,
                        Submit ''b'' example_client] initial_Page = ?p4"
    by (simp only: run_events_Cons run_events_Nil s1 s2 s3 s4)
  have e6: "run_events [Submit ''a'' example_client, Resume 0, Resume 0,
                        Submit ''b'' example_client, Resume 0, Resume 0] initial_Page
              = step (Resume 0) ?p5"
    by (simp only: run_events_Cons run_events_Nil s1 s2 s3 s4 s5)
  have 1: "isLoading (app (run_events [Submit ''a'' example_client, Resume 0, Resume 0] initial_Page)) = False"
    unfolding e3 by (simp add: isLoading_enter_synthesis)
  have 2: "in_flight (run_events [Submit ''a'' example_client, Resume 0, Resume 0] initial_Page) = 1"
    unfolding e3 by (simp add: in_flight_def)
  have 3: "in_flight (run_events [Submit ''a'' example_client, Resume 0, Resume 0,
                             Submit ''b'' example_client] initial_Page) = 2"
    unfolding e4 by (simp add: in_flight_def)
  have 4: "map (\<lambda>m. (role m, parts m))
        (messages (app (run_events [Submit ''a'' example_client, Resume 0, Resume 0,
                                    Submit ''b'' example_client, Resume 0, Resume 0] initial_Page)))
      = [(User, [''a'']), (Model, [[]]), (User, [''The answer is ''])]"
    unfolding e6 s6 m4
    by (simp add: set_last_text_def userMessage_def placeholderMessage_def)
  show ?thesis by (intro conjI 1 2 3 4)
qed

text \<open>
  C2, as stated, fails. A stream that delivers one delta and then fails leaves the turn
  with the streamed text in the log, in front of the error turn.
\<close>

theorem midstream_failure_keeps_partial_text:
  "fst (handleSubmit failing_client ''2+2?'' initial_App) = Caught (Error ''boom'')
   \<and> messages (final_state failing_client ''2+2?'' initial_App) =
       [\<lparr>role = User, parts = [''2+2?''], msg_image = None, sources = None, work = None\<rparr>,
        \<lparr>role = Model, parts = [''The answer is ''], msg_image = None, sources = None, work = None\<rparr>,
        \<lparr>role = Model, parts = [''Sorry, I encountered an error: boom. Please try again.''],
          msg_image = None, sources = None, work = None\<rparr>]"
  by (simp add: final_state_def failing_run messages_on_catch messages_st_stream
        messages_initial_App image_initial_App
        userMessage_def model_turn_def error_turn_def errorMessage_def truthy_str_def
        appended_def js_string_def)

text \<open>
  C2, amended. In every execution of the page, a call of the handler that leaves it
  otherwise than through the final update leaves through the \<^verbatim>\<open>catch\<close> block: the
  join of the initial calls or of the refinement calls was rejected, the streaming call
  was rejected, or the stream failed when its chunks were consumed. That step appends
  exactly one error turn at the end of the log, clears \<^verbatim>\<open>isLoading\<close>, and changes
  nothing else of the state; it removes nothing. A submission whose client cannot be
  constructed appends its user turn and the error turn in the step of the submission. A
  call that has left the handler does nothing when it is resumed. Every step of the page
  other than the final update of a call whose stream has ended normally leaves the sources
  and the work trace of every turn as they were, and the turns it adds have neither.

  A call that runs with no other event in between is the page processing the submission
  and then the resumptions of that call only. Such a call, when its input is not rejected,
  fails with the error \<open>e\<close> in exactly five situations, which exclude one another, and
  the log it leaves is the log before the submission followed by: the user turn and the
  error turn, when the constructor threw \<open>e\<close>, or the join of the initial calls was
  rejected with \<open>e\<close>, or the join of the refinement calls was; the user turn, the empty
  placeholder turn of line 322 and the error turn, when both joins were fulfilled and the
  streaming call was rejected; the user turn, the placeholder turn holding the text that
  line 339 has accumulated over the chunks received (their texts in arrival order, the
  word \<open>undefined\<close> for a chunk without text), and the error turn, when the stream failed
  after those chunks. In no state such a failing call publishes does a turn it has added
  carry sources or a work trace, and it leaves \<^verbatim>\<open>isLoading\<close> false. So the answers of
  the initial and the refinement calls are never shown, and the streamed text is kept.

  The last three parts say what the error turn, the user turn and a model turn are.
\<close>

theorem failed_run_appends_one_error_turn:
  "(\<forall>p r mc run.
       r < length (runs p) \<and> runs p ! r = (mc, run) \<and> run \<noteq> Ended
       \<and> (\<forall>ia ra t gs. run \<noteq> InStream ia ra t gs [] None)
       \<and> snd (runs (step (Resume r) p) ! r) = Ended
     \<longrightarrow> (\<exists>e. ((\<exists>hist base. run = AwaitInitial hist base \<and> initial_join mc = Rejected e)
               \<or> (\<exists>hist base ia. run = AwaitRefined hist base ia
                     \<and> refined_join mc (length ia) = Rejected e)
               \<or> (\<exists>ia ra. run = AwaitStream ia ra \<and> generateContentStream mc = Inl e)
               \<or> (\<exists>ia ra t gs. run = InStream ia ra t gs [] (Some e)))
              \<and> step (Resume r) p =
                  p\<lparr>app := (app p)\<lparr>isLoading := False,
                                    messages := messages (app p) @ [error_turn e]\<rparr>,
                    runs := (runs p)[r := (mc, Ended)]\<rparr>))
   \<and> (\<forall>p u mc e.
        \<not> isLoading (app p) \<and> \<not> rejected_input u (app p) \<and> constructor_error mc = Some e
      \<longrightarrow> step (Submit u mc) p =
            p\<lparr>app := (app p)\<lparr>messages := messages (app p)
                                   @ [userMessage u (app p), error_turn e],
                              isLoading := False, image := None, imageFile := None\<rparr>,
              runs := runs p @ [(mc, Ended)]\<rparr>)
   \<and> (\<forall>p r mc. r < length (runs p) \<and> runs p ! r = (mc, Ended) \<longrightarrow> step (Resume r) p = p)
   \<and> (\<forall>ev p. (\<forall>r mc ia ra t gs. ev = Resume r \<and> r < length (runs p)
                  \<longrightarrow> runs p ! r \<noteq> (mc, InStream ia ra t gs [] None))
        \<longrightarrow> (\<exists>new. map (\<lambda>m. (sources m, work m)) (messages (app (step ev p)))
                      = map (\<lambda>m. (sources m, work m)) (messages (app p)) @ new
                    \<and> set new \<subseteq> {(None, None)}))
   \<and> (\<forall>p u mc n.
        \<not> isLoading (app p) \<and> length (snd (handleSubmit mc u (app p))) \<le> n
      \<longrightarrow> app (run_events (Submit u mc # resumes (length (runs p)) n) p)
            = final_state mc u (app p))
   \<and> (\<forall>mc u a e. \<not> rejected_input u a \<longrightarrow>
        (fst (handleSubmit mc u a) = Caught e) =
           (constructor_error mc = Some e
            \<or> (constructor_error mc = None \<and> initial_join mc = Rejected e)
            \<or> (constructor_error mc = None
                \<and> (\<exists>ia. initial_join mc = Fulfilled ia \<and> refined_join mc (length ia) = Rejected e))
            \<or> (constructor_error mc = None
                \<and> (\<exists>ia ra. initial_join mc = Fulfilled ia
                       \<and> refined_join mc (length ia) = Fulfilled ra)
                \<and> generateContentStream mc = Inl e)
            \<or> (\<exists>cs. constructor_error mc = None
                \<and> (\<exists>ia ra. initial_join mc = Fulfilled ia
                       \<and> refined_join mc (length ia) = Fulfilled ra)
                \<and> generateContentStream mc = Inr (cs, Some e)))
        \<and> (constructor_error mc = Some e
            \<or> (constructor_error mc = None \<and> initial_join mc = Rejected e)
            \<or> (constructor_error mc = None
                \<and> (\<exists>ia. initial_join mc = Fulfilled ia \<and> refined_join mc (length ia) = Rejected e))
           \<longrightarrow> messages (final_state mc u a) = messages a @ [userMessage u a, error_turn e])
        \<and> (constructor_error mc = None
            \<and> (\<exists>ia ra. initial_join mc = Fulfilled ia \<and> refined_join mc (length ia) = Fulfilled ra)
            \<and> generateContentStream mc = Inl e
           \<longrightarrow> messages (final_state mc u a)
                 = messages a @ [userMessage u a, model_turn [], error_turn e])
        \<and> (\<forall>cs. constructor_error mc = None
            \<and> (\<exists>ia ra. initial_join mc = Fulfilled ia \<and> refined_join mc (length ia) = Fulfilled ra)
            \<and> generateContentStream mc = Inr (cs, Some e)
           \<longrightarrow> messages (final_state mc u a)
                 = messages a @ [userMessage u a,
                      model_turn (concat (map (\<lambda>c. case chunk_text c of None \<Rightarrow> ''undefined''
                                                  | Some d \<Rightarrow> d) cs)),
                      error_turn e])
        \<and> (fst (handleSubmit mc u a) = Caught e
           \<longrightarrow> isLoading (final_state mc u a) = False
               \<and> (\<forall>s\<in>set (snd (handleSubmit mc u a)).
                    \<forall>m\<in>set (drop (length (messages a)) (messages s)).
                      work m = None \<and> sources m = None)))
   \<and> (\<forall>e. error_turn e =
          \<lparr>role = Model,
           parts = [case e of
                      Error message \<Rightarrow>
                        ''Sorry, I encountered an error: '' @ message @ ''. Please try again.''
                    | Thrown \<Rightarrow>
                        ''An unexpected error occurred. Please check the console for details and try again.''],
           msg_image = None, sources = None, work = None\<rparr>)
   \<and> (\<forall>u a. userMessage u a =
          \<lparr>role = User, parts = [u],
           msg_image = (case image a of None \<Rightarrow> None
                        | Some img \<Rightarrow> if img = [] then None else Some img),
           sources = None, work = None\<rparr>)
   \<and> (\<forall>t. model_turn t =
          \<lparr>role = Model, parts = [t], msg_image = None, sources = None, work = None\<rparr>)"
proof (intro conjI)
  show "\<forall>p r mc run.
       r < length (runs p) \<and> runs p ! r = (mc, run) \<and> run \<noteq> Ended
       \<and> (\<forall>ia ra t gs. run \<noteq> InStream ia ra t gs [] None)
       \<and> snd (runs (step (Resume r) p) ! r) = Ended
     \<longrightarrow> (\<exists>e. ((\<exists>hist base. run = AwaitInitial hist base \<and> initial_join mc = Rejected e)
               \<or> (\<exists>hist base ia. run = AwaitRefined hist base ia
                     \<and> refined_join mc (length ia) = Rejected e)
               \<or> (\<exists>ia ra. run = AwaitStream ia ra \<and> generateContentStream mc = Inl e)
               \<or> (\<exists>ia ra t gs. run = InStream ia ra t gs [] (Some e)))
              \<and> step (Resume r) p =
                  p\<lparr>app := (app p)\<lparr>isLoading := False,
                                    messages := messages (app p) @ [error_turn e]\<rparr>,
                    runs := (runs p)[r := (mc, Ended)]\<rparr>)"
    using catch_step by blast
  show "\<forall>p u mc e.
        \<not> isLoading (app p) \<and> \<not> rejected_input u (app p) \<and> constructor_error mc = Some e
      \<longrightarrow> step (Submit u mc) p =
            p\<lparr>app := (app p)\<lparr>messages := messages (app p)
                                   @ [userMessage u (app p), error_turn e],
                              isLoading := False, image := None, imageFile := None\<rparr>,
              runs := runs p @ [(mc, Ended)]\<rparr>"
    using submit_constructor_failure by blast
  show "\<forall>p r mc. r < length (runs p) \<and> runs p ! r = (mc, Ended) \<longrightarrow> step (Resume r) p = p"
    using step_resume_ended by blast
  show "\<forall>ev p. (\<forall>r mc ia ra t gs. ev = Resume r \<and> r < length (runs p)
                  \<longrightarrow> runs p ! r \<noteq> (mc, InStream ia ra t gs [] None))
        \<longrightarrow> (\<exists>new. map (\<lambda>m. (sources m, work m)) (messages (app (step ev p)))
                      = map (\<lambda>m. (sources m, work m)) (messages (app p)) @ new
                    \<and> set new \<subseteq> {(None, None)})"
    using step_keeps_sources_and_work by blast
  show "\<forall>p u mc n.
        \<not> isLoading (app p) \<and> length (snd (handleSubmit mc u (app p))) \<le> n
      \<longrightarrow> app (run_events (Submit u mc # resumes (length (runs p)) n) p)
            = final_state mc u (app p)"
    using machine_runs_handler by blast
  show "\<forall>mc u a e. \<not> rejected_input u a \<longrightarrow>
        (fst (handleSubmit mc u a) = Caught e) =
           (constructor_error mc = Some e
            \<or> (constructor_error mc = None \<and> initial_join mc = Rejected e)
            \<or> (constructor_error mc = None
                \<and> (\<exists>ia. initial_join mc = Fulfilled ia \<and> refined_join mc (length ia) = Rejected e))
            \<or> (constructor_error mc = None
                \<and> (\<exists>ia ra. initial_join mc = Fulfilled ia
                       \<and> refined_join mc (length ia) = Fulfilled ra)
                \<and> generateContentStream mc = Inl e)
            \<or> (\<exists>cs. constructor_error mc = None
                \<and> (\<exists>ia ra. initial_join mc = Fulfilled ia
                       \<and> refined_join mc (length ia) = Fulfilled ra)
                \<and> generateContentStream mc = Inr (cs, Some e)))
        \<and> (constructor_error mc = Some e
            \<or> (constructor_error mc = None \<and> initial_join mc = Rejected e)
            \<or> (constructor_error mc = None
                \<and> (\<exists>ia. initial_join mc = Fulfilled ia \<and> refined_join mc (length ia) = Rejected e))
           \<longrightarrow> messages (final_state mc u a) = messages a @ [userMessage u a, error_turn e])
        \<and> (constructor_error mc = None
            \<and> (\<exists>ia ra. initial_join mc = Fulfilled ia \<and> refined_join mc (length ia) = Fulfilled ra)
            \<and> generateContentStream mc = Inl e
           \<longrightarrow> messages (final_state mc u a)
                 = messages a @ [userMessage u a, model_turn [], error_turn e])
        \<and> (\<forall>cs. constructor_error mc = None
            \<and> (\<exists>ia ra. initial_join mc = Fulfilled ia \<and> refined_join mc (length ia) = Fulfilled ra)
            \<and> generateContentStream mc = Inr (cs, Some e)
           \<longrightarrow> messages (final_state mc u a)
                 = messages a @ [userMessage u a,
                      model_turn (concat (map (\<lambda>c. case chunk_text c of None \<Rightarrow> ''undefined''
                                                  | Some d \<Rightarrow> d) cs)),
                      error_turn e])
        \<and> (fst (handleSubmit mc u a) = Caught e
           \<longrightarrow> isLoading (final_state mc u a) = False
               \<and> (\<forall>s\<in>set (snd (handleSubmit mc u a)).
                    \<forall>m\<in>set (drop (length (messages a)) (messages s)).
                      work m = None \<and> sources m = None))"
  proof (intro allI impI conjI)
    fix mc u a e
    assume nr: "\<not> rejected_input u a"
    note l = failed_run_log [OF nr, where mc = mc and e = e]
    show "(fst (handleSubmit mc u a) = Caught e) =
           (constructor_error mc = Some e
            \<or> (constructor_error mc = None \<and> initial_join mc = Rejected e)
            \<or> (constructor_error mc = None
                \<and> (\<exists>ia. initial_join mc = Fulfilled ia \<and> refined_join mc (length ia) = Rejected e))
            \<or> (constructor_error mc = None
                \<and> (\<exists>ia ra. initial_join mc = Fulfilled ia
                       \<and> refined_join mc (length ia) = Fulfilled ra)
                \<and> generateContentStream mc = Inl e)
            \<or> (\<exists>cs. constructor_error mc = None
                \<and> (\<exists>ia ra. initial_join mc = Fulfilled ia
                       \<and> refined_join mc (length ia) = Fulfilled ra)
                \<and> generateContentStream mc = Inr (cs, Some e)))"
      by (rule l(1))
    show "messages (final_state mc u a) = messages a @ [userMessage u a, error_turn e]"
      if "constructor_error mc = Some e
            \<or> (constructor_error mc = None \<and> initial_join mc = Rejected e)
            \<or> (constructor_error mc = None
                \<and> (\<exists>ia. initial_join mc = Fulfilled ia \<and> refined_join mc (length ia) = Rejected e))"
      using that by (rule l(2))
    show "messages (final_state mc u a)
                 = messages a @ [userMessage u a, model_turn [], error_turn e]"
      if "constructor_error mc = None
            \<and> (\<exists>ia ra. initial_join mc = Fulfilled ia \<and> refined_join mc (length ia) = Fulfilled ra)
            \<and> generateContentStream mc = Inl e"
      using that by (rule l(3))
    show "messages (final_state mc u a)
                 = messages a @ [userMessage u a,
                      model_turn (concat (map (\<lambda>c. case chunk_text c of None \<Rightarrow> ''undefined''
                                                  | Some d \<Rightarrow> d) cs)),
                      error_turn e]"
      if "constructor_error mc = None
            \<and> (\<exists>ia ra. initial_join mc = Fulfilled ia \<and> refined_join mc (length ia) = Fulfilled ra)
            \<and> generateContentStream mc = Inr (cs, Some e)" for cs
      using that by (rule l(4))
    assume c: "fst (handleSubmit mc u a) = Caught e"
    from l(5) [OF c] show "isLoading (final_state mc u a) = False" by blast
    from l(5) [OF c] show "\<forall>s\<in>set (snd (handleSubmit mc u a)).
                    \<forall>m\<in>set (drop (length (messages a)) (messages s)).
                      work m = None \<and> sources m = None" by blast
  qed
  show "\<forall>e. error_turn e =
          \<lparr>role = Model,
           parts = [case e of
                      Error message \<Rightarrow>
                        ''Sorry, I encountered an error: '' @ message @ ''. Please try again.''
                    | Thrown \<Rightarrow>
                        ''An unexpected error occurred. Please check the console for details and try again.''],
           msg_image = None, sources = None, work = None\<rparr>"
    by (simp add: error_turn_def errorMessage_def)
  show "\<forall>u a. userMessage u a =
          \<lparr>role = User, parts = [u],
           msg_image = (case image a of None \<Rightarrow> None
                        | Some img \<Rightarrow> if img = [] then None else Some img),
           sources = None, work = None\<rparr>"
    by (simp add: userMessage_def truthy_str_def split: option.splits)
  show "\<forall>t. model_turn t =
          \<lparr>role = Model, parts = [t], msg_image = None, sources = None, work = None\<rparr>"
    by (simp add: model_turn_def)
qed

text \<open>
  The amended C2 at the client whose initial call at index 2 is rejected, on the page and
  for the call alone, and at the client whose stream fails after one delta.
\<close>

theorem failed_run_appends_one_error_turn_witness:
  "messages (app (run_events [Submit ''2+2?'' quota_client, Resume 0] initial_Page)) =
       [\<lparr>role = User, parts = [''2+2?''], msg_image = None, sources = None, work = None\<rparr>,
        \<lparr>role = Model, parts = [''Sorry, I encountered an error: quota. Please try again.''],
          msg_image = None, sources = None, work = None\<rparr>]
   \<and> isLoading (app (run_events [Submit ''2+2?'' quota_client, Resume 0] initial_Page)) = False
   \<and> fst (handleSubmit quota_client ''2+2?'' initial_App) = Caught (Error ''quota'')
   \<and> messages (final_state quota_client ''2+2?'' initial_App) =
       [\<lparr>role = User, parts = [''2+2?''], msg_image = None, sources = None, work = None\<rparr>,
        \<lparr>role = Model, parts = [''Sorry, I encountered an error: quota. Please try again.''],
          msg_image = None, sources = None, work = None\<rparr>]
   \<and> fst (handleSubmit failing_client ''2+2?'' initial_App) = Caught (Error ''boom'')
   \<and> messages (final_state failing_client ''2+2?'' initial_App) =
       [\<lparr>role = User, parts = [''2+2?''], msg_image = None, sources = None, work = None\<rparr>,
        \<lparr>role = Model, parts = [''The answer is ''], msg_image = None, sources = None, work = None\<rparr>,
        \<lparr>role = Model, parts = [''Sorry, I encountered an error: boom. Please try again.''],
          msg_image = None, sources = None, work = None\<rparr>]"
proof -
  note t = failed_run_appends_one_error_turn
  note t1 = t [THEN conjunct1, rule_format]
  note t6 = t [THEN conjunct2, THEN conjunct2, THEN conjunct2, THEN conjunct2, THEN conjunct2,
      THEN conjunct1, rule_format, OF not_rejected]
  note pins = t [THEN conjunct2, THEN conjunct2, THEN conjunct2, THEN conjunct2, THEN conjunct2,
      THEN conjunct2]
  have et: "\<And>e. error_turn e =
          \<lparr>role = Model,
           parts = [case e of
                      Error message \<Rightarrow>
                        ''Sorry, I encountered an error: '' @ message @ ''. Please try again.''
                    | Thrown \<Rightarrow>
                        ''An unexpected error occurred. Please check the console for details and try again.''],
           msg_image = None, sources = None, work = None\<rparr>"
    using pins by blast
  have um: "\<And>u a. userMessage u a =
          \<lparr>role = User, parts = [u],
           msg_image = (case image a of None \<Rightarrow> None
                        | Some img \<Rightarrow> if img = [] then None else Some img),
           sources = None, work = None\<rparr>"
    using pins by blast
  have mt: "\<And>t. model_turn t =
          \<lparr>role = Model, parts = [t], msg_image = None, sources = None, work = None\<rparr>"
    using pins by blast
  let ?H = "mainChatHistory (messages (begin_run ''2+2?'' initial_App))"
  let ?B = "baseApiParts ''2+2?'' initial_App"
  let ?p1 = "\<lparr>app = st_fan_out ''2+2?'' initial_App,
              runs = [(quota_client, AwaitInitial ?H ?B)], readers = []\<rparr>"
  have qc: "constructor_error quota_client = None"
    by (simp add: quota_client_def example_client_def)
  have tq: "trim ''2+2?'' \<noteq> []" by (simp add: trim_def is_space_def)
  have s1: "step (Submit ''2+2?'' quota_client) initial_Page = ?p1"
    using step_submit [of initial_Page "''2+2?''" quota_client]
    by (simp add: not_rejected_text tq qc initial_Page_def initial_App_def)
  have r1: "resume quota_client (AwaitInitial ?H ?B) (app ?p1)
              = (Ended, on_catch (Error ''quota'') (app ?p1))"
    by (simp add: quota_initial_join)
  have s2: "step (Resume 0) ?p1
              = ?p1\<lparr>app := on_catch (Error ''quota'') (app ?p1),
                    runs := (runs ?p1)[0 := (quota_client, Ended)]\<rparr>"
    by (rule step_resume [OF _ _ r1]) simp_all
  have ended: "snd (runs (step (Resume 0) ?p1) ! 0) = Ended"
    unfolding s2 by simp
  from t1 [of 0 ?p1 quota_client "AwaitInitial ?H ?B"] ended
  obtain e where c: "initial_join quota_client = Rejected e"
    and s: "step (Resume 0) ?p1 =
              ?p1\<lparr>app := (app ?p1)\<lparr>isLoading := False,
                                     messages := messages (app ?p1) @ [error_turn e]\<rparr>,
                   runs := (runs ?p1)[0 := (quota_client, Ended)]\<rparr>"
    by auto
  from c have e: "e = Error ''quota''" by (simp add: quota_initial_join)
  have ev: "run_events [Submit ''2+2?'' quota_client, Resume 0] initial_Page = step (Resume 0) ?p1"
    by (simp only: run_events_Cons run_events_Nil s1)
  have 1: "messages (app (run_events [Submit ''2+2?'' quota_client, Resume 0] initial_Page)) =
       [\<lparr>role = User, parts = [''2+2?''], msg_image = None, sources = None, work = None\<rparr>,
        \<lparr>role = Model, parts = [''Sorry, I encountered an error: quota. Please try again.''],
          msg_image = None, sources = None, work = None\<rparr>]"
    unfolding ev s e
    by (simp add: messages_st_fan_out messages_initial_App image_initial_App et um)
  have 2: "isLoading (app (run_events [Submit ''2+2?'' quota_client, Resume 0] initial_Page)) = False"
    unfolding ev s by simp
  have qj: "constructor_error quota_client = Some (Error ''quota'')
            \<or> (constructor_error quota_client = None
                \<and> initial_join quota_client = Rejected (Error ''quota''))
            \<or> (constructor_error quota_client = None
                \<and> (\<exists>ia. initial_join quota_client = Fulfilled ia
                       \<and> refined_join quota_client (length ia) = Rejected (Error ''quota'')))"
    using qc quota_initial_join by simp
  have 3: "fst (handleSubmit quota_client ''2+2?'' initial_App) = Caught (Error ''quota'')"
    using t6 [of quota_client "Error ''quota''", THEN conjunct1] qj by blast
  have 4: "messages (final_state quota_client ''2+2?'' initial_App) =
       [\<lparr>role = User, parts = [''2+2?''], msg_image = None, sources = None, work = None\<rparr>,
        \<lparr>role = Model, parts = [''Sorry, I encountered an error: quota. Please try again.''],
          msg_image = None, sources = None, work = None\<rparr>]"
    using t6 [of quota_client "Error ''quota''", THEN conjunct2, THEN conjunct1, rule_format, OF qj]
    by (simp add: messages_initial_App image_initial_App et um)
  have fc: "constructor_error failing_client = None
            \<and> (\<exists>ia ra. initial_join failing_client = Fulfilled ia
                   \<and> refined_join failing_client (length ia) = Fulfilled ra)
            \<and> generateContentStream failing_client
                = Inr ([\<lparr>chunk_text = Some ''The answer is '', groundingChunks = Some [ex_web]\<rparr>],
                       Some (Error ''boom''))"
    by (simp add: failing_initial_join failing_refined_join) (simp add: failing_client_def example_client_def)
  have 5: "fst (handleSubmit failing_client ''2+2?'' initial_App) = Caught (Error ''boom'')"
    using t6 [of failing_client "Error ''boom''", THEN conjunct1] fc by blast
  have 6: "messages (final_state failing_client ''2+2?'' initial_App) =
       [\<lparr>role = User, parts = [''2+2?''], msg_image = None, sources = None, work = None\<rparr>,
        \<lparr>role = Model, parts = [''The answer is ''], msg_image = None, sources = None, work = None\<rparr>,
        \<lparr>role = Model, parts = [''Sorry, I encountered an error: boom. Please try again.''],
          msg_image = None, sources = None, work = None\<rparr>]"
    using t6 [of failing_client "Error ''boom''", THEN conjunct2, THEN conjunct2, THEN conjunct2,
        THEN conjunct1, rule_format, OF fc]
    by (simp add: messages_initial_App image_initial_App et um mt)
  from 1 2 3 4 5 6 show ?thesis by simp
qed

text \<open>
  C3. For every agent index \<open>i\<close> below the number of initial answers, the peer entries
  of the critique context are the answers at all the indices other than \<open>i\<close>, in their
  original order: there are one fewer of them than answers, and the entry at position \<open>k\<close>
  is the answer at index \<open>k\<close> below \<open>i\<close> and at index \<open>k + 1\<close> from \<open>i\<close> on. The
  request issued for agent \<open>i\<close> is written out in full: after the history and the parts
  of the submission comes one text part, which holds the marker of the internal context,
  the agent's own answer between quotation marks, introduced as its initial response, and
  then one line for each peer entry, in order, made of the label, a full stop, a space and
  the answer between quotation marks; the label of the entry at position \<open>k\<close> is the
  decimal numeral of \<open>k + 1\<close>, so the labels run \<open>1, 2, ...\<close> without a gap. An answer
  without text appears as the word \<open>undefined\<close>. The entries are chosen by position: an
  answer of another agent with the same text as the agent's own is still a peer entry.
  The last part says that \<open>string_of_nat\<close> yields the decimal numeral: digits only, of
  the right value, with no leading zero.
\<close>

theorem refinement_context_peers_in_order:
  assumes "i < length initialAnswers"
  shows "otherAnswers initialAnswers i
           = map (\<lambda>j. initialAnswers ! j) (filter (\<lambda>j. j \<noteq> i) [0..<length initialAnswers])
    \<and> length (otherAnswers initialAnswers i) = length initialAnswers - 1
    \<and> (\<forall>k<length initialAnswers - 1.
          otherAnswers initialAnswers i ! k = initialAnswers ! (if k < i then k else Suc k))
    \<and> issued (issue_refinement hist base initialAnswers a) ! (length (issued a) + i)
        = \<lparr>systemInstruction = REFINEMENT_SYSTEM_INSTRUCTION, streaming = False,
           contents = hist @ [\<lparr>c_role = User, c_parts = base @ [TextPart
             ([CHR 0x0A, CHR 0x0A] @ ''---INTERNAL CONTEXT---'' @ [CHR 0x0A]
              @ ''My initial response was: '' @ [CHR 0x22]
              @ (case initialAnswers ! i of None \<Rightarrow> ''undefined'' | Some own \<Rightarrow> own)
              @ [CHR 0x22] @ ''. The other agents responded with:'' @ [CHR 0x0A]
              @ (case map (\<lambda>k. string_of_nat (Suc k) @ ''. '' @ [CHR 0x22]
                              @ (case initialAnswers ! (if k < i then k else Suc k) of
                                   None \<Rightarrow> ''undefined'' | Some peer \<Rightarrow> peer)
                              @ [CHR 0x22])
                        [0..<length initialAnswers - 1] of
                   [] \<Rightarrow> []
                 | entry # entries \<Rightarrow> entry @ concat (map ((@) [CHR 0x0A]) entries))
              @ [CHR 0x0A, CHR 0x0A]
              @ ''Based on this context, critically re-evaluate and provide a new, improved response to the original query.'')]\<rparr>]\<rparr>
    \<and> (\<forall>n. string_of_nat n \<noteq> [] \<and> set (string_of_nat n) \<subseteq> set ''0123456789''
             \<and> foldl (\<lambda>v c. 10 * v + (of_char c - 48)) 0 (string_of_nat n) = n
             \<and> (0 < n \<longrightarrow> hd (string_of_nat n) \<noteq> CHR ''0''))"
proof -
  have len: "length (otherAnswers initialAnswers i) = length initialAnswers - 1"
    using assms by (simp add: otherAnswers_take_drop)
  have nth: "\<forall>k<length initialAnswers - 1.
          otherAnswers initialAnswers i ! k = initialAnswers ! (if k < i then k else Suc k)"
    using assms by (auto simp: otherAnswers_take_drop nth_append)
  have entries: "map_indexed peer_entry (otherAnswers initialAnswers i)
        = map (\<lambda>k. string_of_nat (Suc k) @ ''. '' @ [CHR 0x22]
                              @ (case initialAnswers ! (if k < i then k else Suc k) of
                                   None \<Rightarrow> ''undefined'' | Some peer \<Rightarrow> peer)
                              @ [CHR 0x22])
                        [0..<length initialAnswers - 1]"
    using nth by (simp add: map_indexed_upt len peer_entry_def quoted_def js_string_def
        del: string_of_nat.simps)
  have call: "issued (issue_refinement hist base initialAnswers a) ! (length (issued a) + i)
        = refinement_call hist base initialAnswers (initialAnswers ! i) i"
    using assms by (simp add: issue_refinement_def nth_append nth_map_indexed)
  have ctx: "internal_context (refinementContext initialAnswers (initialAnswers ! i) i)
      = [CHR 0x0A, CHR 0x0A] @ ''---INTERNAL CONTEXT---'' @ [CHR 0x0A]
              @ ''My initial response was: '' @ [CHR 0x22]
              @ (case initialAnswers ! i of None \<Rightarrow> ''undefined'' | Some own \<Rightarrow> own)
              @ [CHR 0x22] @ ''. The other agents responded with:'' @ [CHR 0x0A]
              @ (case map (\<lambda>k. string_of_nat (Suc k) @ ''. '' @ [CHR 0x22]
                              @ (case initialAnswers ! (if k < i then k else Suc k) of
                                   None \<Rightarrow> ''undefined'' | Some peer \<Rightarrow> peer)
                              @ [CHR 0x22])
                        [0..<length initialAnswers - 1] of
                   [] \<Rightarrow> []
                 | entry # entries \<Rightarrow> entry @ concat (map ((@) [CHR 0x0A]) entries))
              @ [CHR 0x0A, CHR 0x0A]
              @ ''Based on this context, critically re-evaluate and provide a new, improved response to the original query.''"
    by (simp add: internal_context_def refinementContext_def otherAnswersText_def entries
          join_case quoted_def js_string_def nl_def del: string_of_nat.simps)
  have 4: "issued (issue_refinement hist base initialAnswers a) ! (length (issued a) + i)
        = \<lparr>systemInstruction = REFINEMENT_SYSTEM_INSTRUCTION, streaming = False,
           contents = hist @ [\<lparr>c_role = User, c_parts = base @ [TextPart
             (internal_context (refinementContext initialAnswers (initialAnswers ! i) i))]\<rparr>]\<rparr>"
    by (simp add: call refinement_call_def refinementTurn_def)
  have 5: "\<forall>n. string_of_nat n \<noteq> [] \<and> set (string_of_nat n) \<subseteq> set ''0123456789''
             \<and> foldl (\<lambda>v c. 10 * v + (of_char c - 48)) 0 (string_of_nat n) = n
             \<and> (0 < n \<longrightarrow> hd (string_of_nat n) \<noteq> CHR ''0'')"
    using string_of_nat_not_Nil string_of_nat_digits string_of_nat_value
      string_of_nat_no_leading_zero by blast
  show ?thesis
    unfolding 4 ctx using otherAnswers_eq [of initialAnswers i] len nth 5 by blast
qed

text \<open>
  C3 at the four answers \<open>a\<close>, \<open>b\<close>, \<open>c\<close>, \<open>d\<close> and the agent at index 1, with the
  text of the request character by character.
\<close>

theorem refinement_context_peers_in_order_witness:
  "otherAnswers [Some ''a'', Some ''b'', Some ''c'', Some ''d''] 1 = [Some ''a'', Some ''c'', Some ''d'']
   \<and> issued (issue_refinement [] [TextPart ''q''] [Some ''a'', Some ''b'', Some ''c'', Some ''d'']
               initial_App) ! 1
       = \<lparr>systemInstruction = REFINEMENT_SYSTEM_INSTRUCTION, streaming = False,
          contents = [\<lparr>c_role = User, c_parts = [TextPart ''q'', TextPart
            ([CHR 0x0A, CHR 0x0A] @ ''---INTERNAL CONTEXT---'' @ [CHR 0x0A]
             @ ''My initial response was: '' @ [CHR 0x22] @ ''b'' @ [CHR 0x22]
             @ ''. The other agents responded with:'' @ [CHR 0x0A]
             @ ''1. '' @ [CHR 0x22] @ ''a'' @ [CHR 0x22, CHR 0x0A]
             @ ''2. '' @ [CHR 0x22] @ ''c'' @ [CHR 0x22, CHR 0x0A]
             @ ''3. '' @ [CHR 0x22] @ ''d'' @ [CHR 0x22]
             @ [CHR 0x0A, CHR 0x0A]
             @ ''Based on this context, critically re-evaluate and provide a new, improved response to the original query.'')]\<rparr>]\<rparr>"
proof -
  have h: "1 < length [Some ''a'', Some ''b'', Some ''c'', Some ''d'']" by simp
  note t = refinement_context_peers_in_order [OF h, of "[]" "[TextPart ''q'']" initial_App]
  have a: "otherAnswers [Some ''a'', Some ''b'', Some ''c'', Some ''d''] 1 = [Some ''a'', Some ''c'', Some ''d'']"
    using t [THEN conjunct1] by (simp add: upt_4)
  have b: "issued (issue_refinement [] [TextPart ''q''] [Some ''a'', Some ''b'', Some ''c'', Some ''d'']
               initial_App) ! 1
       = \<lparr>systemInstruction = REFINEMENT_SYSTEM_INSTRUCTION, streaming = False,
          contents = [\<lparr>c_role = User, c_parts = [TextPart ''q'', TextPart
            ([CHR 0x0A, CHR 0x0A] @ ''---INTERNAL CONTEXT---'' @ [CHR 0x0A]
             @ ''My initial response was: '' @ [CHR 0x22] @ ''b'' @ [CHR 0x22]
             @ ''. The other agents responded with:'' @ [CHR 0x0A]
             @ ''1. '' @ [CHR 0x22] @ ''a'' @ [CHR 0x22, CHR 0x0A]
             @ ''2. '' @ [CHR 0x22] @ ''c'' @ [CHR 0x22, CHR 0x0A]
             @ ''3. '' @ [CHR 0x22] @ ''d'' @ [CHR 0x22]
             @ [CHR 0x0A, CHR 0x0A]
             @ ''Based on this context, critically re-evaluate and provide a new, improved response to the original query.'')]\<rparr>]\<rparr>"
    using t [THEN conjunct2, THEN conjunct2, THEN conjunct2, THEN conjunct1]
    by (simp add: initial_App_def upt_3 digit_def)
  from a b show ?thesis by simp
qed



text \<open>
  C5. The claim is that the text shown for the model turn of the run after the \<open>k\<close>-th
  delta is the concatenation of the first \<open>k\<close> deltas. Line 339 appends \<^verbatim>\<open>chunk.text\<close>
  as it is: for the stream whose second chunk carries a citation and no text, the run
  alone shows \<open>The answer is undefined\<close> after the second chunk and ends with
  \<open>The answer is undefined4.\<close>, where the deltas are \<open>The answer is\<close> and \<open>4.\<close>. And
  the updater of lines 345-349 writes the last turn of the log, whichever it is: when a
  second submission has been accepted while the stream of the first was pending (C1), the
  first run has applied its first delta, its own model turn is still empty, and the delta
  stands in the turn of the second user.
\<close>

theorem streamed_text_diverges_from_deltas:
  "generateContentStream textless_client
     = Inr ([\<lparr>chunk_text = Some ''The answer is '', groundingChunks = None\<rparr>,
             \<lparr>chunk_text = None, groundingChunks = Some [ex_web]\<rparr>,
             \<lparr>chunk_text = Some ''4.'', groundingChunks = None\<rparr>], None)
   \<and> fst (handleSubmit textless_client ''2+2?'' initial_App) = Completed
   \<and> map (\<lambda>s. map (\<lambda>m. (role m, parts m)) (messages s))
        (drop 3 (snd (handleSubmit textless_client ''2+2?'' initial_App)))
      = [[(User, [''2+2?'']), (Model, [''The answer is ''])],
         [(User, [''2+2?'']), (Model, [''The answer is undefined''])],
         [(User, [''2+2?'']), (Model, [''The answer is undefined4.''])],
         [(User, [''2+2?'']), (Model, [''The answer is undefined4.''])]]
   \<and> runs (run_events [Submit ''a'' example_client, Resume 0, Resume 0,
                        Submit ''b'' example_client, Resume 0, Resume 0] initial_Page) ! 0
      = (example_client,
         InStream [Some ''4'', Some ''4'', Some ''4'', Some ''4'']
           [Some ''4'', Some ''4'', Some ''4'', Some ''4''] ''The answer is '' [ex_web]
           [\<lparr>chunk_text = Some ''4.'', groundingChunks = Some [ex_web]\<rparr>] None)
   \<and> map (\<lambda>m. (role m, parts m))
        (messages (app (run_events [Submit ''a'' example_client, Resume 0, Resume 0,
                                    Submit ''b'' example_client, Resume 0, Resume 0] initial_Page)))
      = [(User, [''a'']), (Model, [[]]), (User, [''The answer is ''])]"
proof -
  let ?E = "[Submit ''a'' example_client, Resume 0, Resume 0,
             Submit ''b'' example_client, Resume 0]"
  have 1: "fst (handleSubmit textless_client ''2+2?'' initial_App) = Completed"
    by (simp add: textless_run)
  have 2: "map (\<lambda>s. map (\<lambda>m. (role m, parts m)) (messages s))
        (drop 3 (snd (handleSubmit textless_client ''2+2?'' initial_App)))
      = [[(User, [''2+2?'']), (Model, [''The answer is ''])],
         [(User, [''2+2?'']), (Model, [''The answer is undefined''])],
         [(User, [''2+2?'']), (Model, [''The answer is undefined4.''])],
         [(User, [''2+2?'']), (Model, [''The answer is undefined4.''])]]"
    by (simp add: textless_run published_def upt_3 messages_st_stream messages_finish_st_stream
          messages_initial_App userMessage_def model_turn_def appended_def js_string_def)
  have e: "run_events (?E @ [Resume 0]) initial_Page = step (Resume 0) (run_events ?E initial_Page)"
    by (simp only: run_events_append run_events_Cons run_events_Nil)
  have l: "0 < length (runs (run_events ?E initial_Page))"
    by (simp only: racing_page(1))
  note s = step_delta [OF l racing_page(2)]
  have 3: "runs (run_events (?E @ [Resume 0]) initial_Page) ! 0
      = (example_client,
         InStream [Some ''4'', Some ''4'', Some ''4'', Some ''4'']
           [Some ''4'', Some ''4'', Some ''4'', Some ''4''] ''The answer is '' [ex_web]
           [\<lparr>chunk_text = Some ''4.'', groundingChunks = Some [ex_web]\<rparr>] None)"
    unfolding e s using l by (simp add: appended_def js_string_def push_grounding_def)
  have 4: "map (\<lambda>m. (role m, parts m))
        (messages (app (run_events (?E @ [Resume 0]) initial_Page)))
      = [(User, [''a'']), (Model, [[]]), (User, [''The answer is ''])]"
    unfolding e s by (simp add: racing_page(3) set_last_text_def appended_def js_string_def)
  have 0: "generateContentStream textless_client
     = Inr ([\<lparr>chunk_text = Some ''The answer is '', groundingChunks = None\<rparr>,
             \<lparr>chunk_text = None, groundingChunks = Some [ex_web]\<rparr>,
             \<lparr>chunk_text = Some ''4.'', groundingChunks = None\<rparr>], None)"
    by (simp add: textless_client_def)
  from 0 1 2 3 4 show ?thesis by simp
qed

text \<open>
  C6. If the promise of one of the initial calls is rejected, the run leaves through the
  \<^verbatim>\<open>catch\<close> block with the rejection of one of the initial calls, and it publishes two
  states only: the one in which the initial calls were made, and the one with the error
  turn. In both, the calls made by the run are exactly the \<^verbatim>\<open>NUM_AGENTS\<close> initial calls:
  none is repeated, and no refinement call and no streaming call is made.
\<close>

theorem fan_out_failure_issues_no_further_call:
  assumes "\<not> rejected_input u a" "constructor_error mc = None"
    "i < NUM_AGENTS" "snd (generateContent mc INITIAL_SYSTEM_INSTRUCTION i) = Inl e"
  shows "\<exists>e'. fst (handleSubmit mc u a) = Caught e'
      \<and> (\<exists>j<NUM_AGENTS. snd (generateContent mc INITIAL_SYSTEM_INSTRUCTION j) = Inl e')
      \<and> snd (handleSubmit mc u a) = [st_fan_out u a, on_catch e' (st_fan_out u a)]
      \<and> (\<forall>s\<in>set (snd (handleSubmit mc u a)).
            issued s = issued a @ replicate NUM_AGENTS
              (initial_call (mainChatHistory (messages a @ [userMessage u a])) (baseApiParts u a)))
      \<and> (\<forall>s\<in>set (snd (handleSubmit mc u a)).
            \<forall>c\<in>set (drop (length (issued a)) (issued s)).
              systemInstruction c = INITIAL_SYSTEM_INSTRUCTION \<and> \<not> streaming c)"
proof -
  from initial_join_rejected [OF assms(3,4)] obtain e' j where
    rej: "initial_join mc = Rejected e'" and j: "j < NUM_AGENTS"
      "snd (generateContent mc INITIAL_SYSTEM_INSTRUCTION j) = Inl e'" by blast
  show ?thesis
  proof (cases rule: handleSubmit_cases [of u a mc])
    case (Initial e'')
    with rej have e: "e'' = e'" by simp
    have tr: "snd (handleSubmit mc u a) = [st_fan_out u a, on_catch e' (st_fan_out u a)]"
      by (simp add: Initial(4) e)
    have iss: "\<forall>s\<in>set (snd (handleSubmit mc u a)).
            issued s = issued a @ replicate NUM_AGENTS
              (initial_call (mainChatHistory (messages a @ [userMessage u a])) (baseApiParts u a))"
      by (simp add: tr issued_st_fan_out issued_on_catch)
    have "\<forall>s\<in>set (snd (handleSubmit mc u a)).
            \<forall>c\<in>set (drop (length (issued a)) (issued s)).
              systemInstruction c = INITIAL_SYSTEM_INSTRUCTION \<and> \<not> streaming c"
      by (simp add: tr issued_st_fan_out issued_on_catch initial_call_def)
    with tr iss j Initial(4) e show ?thesis by auto
  qed (use assms rej in simp_all)
qed

text \<open>
  C6 at a client whose initial call at index 2 is rejected.
\<close>

theorem fan_out_failure_issues_no_further_call_witness:
  "fst (handleSubmit quota_client ''2+2?'' initial_App) = Caught (Error ''quota'')
   \<and> length (issued (final_state quota_client ''2+2?'' initial_App)) = 4"
proof -
  have c: "constructor_error quota_client = None"
    by (simp add: quota_client_def example_client_def)
  have i: "2 < NUM_AGENTS" by (simp add: NUM_AGENTS_def)
  have r: "snd (generateContent quota_client INITIAL_SYSTEM_INSTRUCTION 2) = Inl (Error ''quota'')"
    by (simp add: quota_client_def)
  from fan_out_failure_issues_no_further_call [OF not_rejected c i r] obtain e' j where
    e: "fst (handleSubmit quota_client ''2+2?'' initial_App) = Caught e'"
    and j: "snd (generateContent quota_client INITIAL_SYSTEM_INSTRUCTION j) = Inl e'"
    and tr: "snd (handleSubmit quota_client ''2+2?'' initial_App)
               = [st_fan_out ''2+2?'' initial_App, on_catch e' (st_fan_out ''2+2?'' initial_App)]"
    and iss: "\<forall>s\<in>set (snd (handleSubmit quota_client ''2+2?'' initial_App)).
            issued s = issued initial_App @ replicate NUM_AGENTS
              (initial_call (mainChatHistory (messages initial_App @ [userMessage ''2+2?'' initial_App]))
                 (baseApiParts ''2+2?'' initial_App))"
    by blast
  from j have "e' = Error ''quota''"
    by (simp add: quota_client_def split: if_splits)
  moreover have "issued (final_state quota_client ''2+2?'' initial_App)
      = issued initial_App @ replicate NUM_AGENTS
              (initial_call (mainChatHistory (messages initial_App @ [userMessage ''2+2?'' initial_App]))
                 (baseApiParts ''2+2?'' initial_App))"
    using iss by (simp add: final_state_def tr)
  then have "length (issued (final_state quota_client ''2+2?'' initial_App)) = 4"
    by (simp add: initial_App_def NUM_AGENTS_def)
  ultimately show ?thesis using e by simp
qed

text \<open>
  C7. For every number of promises and every assignment of completion times, a join
  whose promises are all fulfilled yields the values in the order of the indices of the
  promises. So the initial answers are the replies to the initial calls in the order of
  the agent indices, and the refined answers are the replies to the refinement calls in
  that order, whatever the delays of the client.
\<close>

theorem join_is_ordered_by_agent_index:
  "Promise_all (map (\<lambda>i. (latency i, Inr (answer i))) [0..<n]) = Fulfilled (map answer [0..<n])
   \<and> initial_join \<lparr>constructor_error = ce,
                    generateContent = (\<lambda>si i. (delay si i, Inr (reply si i))),
                    generateContentStream = st\<rparr>
       = Fulfilled (map (reply INITIAL_SYSTEM_INSTRUCTION) [0..<NUM_AGENTS])
   \<and> refined_join \<lparr>constructor_error = ce,
                    generateContent = (\<lambda>si i. (delay si i, Inr (reply si i))),
                    generateContentStream = st\<rparr> m
       = Fulfilled (map (reply REFINEMENT_SYSTEM_INSTRUCTION) [0..<m])"
proof -
  have gen: "Promise_all (map (\<lambda>i. (l i, Inr (r i))) [0..<k]) = Fulfilled (map r [0..<k])"
    for l :: "nat \<Rightarrow> nat" and r :: "nat \<Rightarrow> 'b" and k
  proof -
    have "\<forall>p\<in>set (map (\<lambda>i. (l i, Inr (r i))) [0..<k]). \<exists>v. snd p = Inr v" by auto
    from Promise_all_fulfilled [OF this] show ?thesis by (simp add: comp_def)
  qed
  show ?thesis
    using gen [of latency answer n] gen [of "delay INITIAL_SYSTEM_INSTRUCTION" "reply INITIAL_SYSTEM_INSTRUCTION" NUM_AGENTS]
      gen [of "delay REFINEMENT_SYSTEM_INSTRUCTION" "reply REFINEMENT_SYSTEM_INSTRUCTION" m]
    by (simp add: initial_join_def refined_join_def)
qed

text \<open>
  C7 at four promises that complete in the reverse of the order of their indices.
\<close>

theorem join_is_ordered_by_agent_index_witness:
  "Promise_all [(3, Inr ''a''), (2, Inr ''b''), (1, Inr ''c''), (0 :: nat, Inr ''d'')]
     = Fulfilled [''a'', ''b'', ''c'', ''d'']
   \<and> initial_join \<lparr>constructor_error = None,
                    generateContent = (\<lambda>si i. (4 - i, Inr ([Some ''x'', Some ''xx'', Some ''xxx'', Some ''xxxx''] ! i))),
                    generateContentStream = Inl Thrown\<rparr>
       = Fulfilled [Some ''x'', Some ''xx'', Some ''xxx'', Some ''xxxx'']"
  using join_is_ordered_by_agent_index [of "\<lambda>i. 3 - i" "\<lambda>i. [''a'', ''b'', ''c'', ''d''] ! i" 4 None
              "\<lambda>si i. 4 - i" "\<lambda>si i. [Some ''x'', Some ''xx'', Some ''xxx'', Some ''xxxx''] ! i" "Inl Thrown" 0]
  by (simp add: upt_4 NUM_AGENTS_def)

text \<open>
  C8. A submission whose text is empty after trimming, with no image attached, leaves the
  page as it was and the handler returns at line 242, with no state published. A chosen
  file over the size limit leaves the page as it was. And over every sequence of events
  from the initial page, every inline attachment in every call made to the model client
  has the mime type of a chosen file within the limit and the payload of the data URL of
  a chosen file within the limit.
\<close>

theorem rejected_input_and_oversize_file_reach_no_call:
  "(trim u = [] \<and> \<not> truthy_str (image (app p))
      \<longrightarrow> step (Submit u mc) p = p \<and> handleSubmit mc u (app p) = (Returned, []))
   \<and> (file_size file > MAX_FILE_SIZE \<longrightarrow> step (SelectFile file) p = p)
   \<and> (\<forall>c\<in>set (issued (app (run_events evs initial_Page))).
        \<forall>h\<in>set (contents c). \<forall>m d. InlineData m d \<in> set (c_parts h) \<longrightarrow>
          (\<exists>f. SelectFile f \<in> set evs \<and> file_size f \<le> MAX_FILE_SIZE \<and> mime_type f = m)
          \<and> (\<exists>g img. SelectFile g \<in> set evs \<and> file_size g \<le> MAX_FILE_SIZE
                      \<and> data_url g = Some img \<and> d = nth_opt (split_on CHR '','' img) 1))"
proof -
  have 1: "trim u = [] \<and> \<not> truthy_str (image (app p))
      \<longrightarrow> step (Submit u mc) p = p \<and> handleSubmit mc u (app p) = (Returned, [])"
    by (simp add: submit_rejected rejected_input_def handleSubmit_def)
  have 2: "file_size file > MAX_FILE_SIZE \<longrightarrow> step (SelectFile file) p = p"
    by (simp add: step_def handleImageChange_def)
  have "page_ok ({} \<union> accepted evs) (run_events evs initial_Page)"
    by (rule page_ok_run_events [OF page_ok_initial])
  then have ok: "page_ok (accepted evs) (run_events evs initial_Page)"
    unfolding Un_empty_left .
  have 3: "\<forall>c\<in>set (issued (app (run_events evs initial_Page))).
        \<forall>h\<in>set (contents c). \<forall>m d. InlineData m d \<in> set (c_parts h) \<longrightarrow>
          (\<exists>f. SelectFile f \<in> set evs \<and> file_size f \<le> MAX_FILE_SIZE \<and> mime_type f = m)
          \<and> (\<exists>g img. SelectFile g \<in> set evs \<and> file_size g \<le> MAX_FILE_SIZE
                      \<and> data_url g = Some img \<and> d = nth_opt (split_on CHR '','' img) 1)"
  proof (intro ballI allI impI)
    fix c h m d
    assume c: "c \<in> set (issued (app (run_events evs initial_Page)))"
      and h: "h \<in> set (contents c)" and p: "InlineData m d \<in> set (c_parts h)"
    from ok c have "contents_ok (accepted evs) (contents c)"
      by (simp add: page_ok_def app_ok_def)
    with h p have "inline_ok (accepted evs) (InlineData m d)"
      by (auto simp: contents_ok_def)
    then show "(\<exists>f. SelectFile f \<in> set evs \<and> file_size f \<le> MAX_FILE_SIZE \<and> mime_type f = m)
          \<and> (\<exists>g img. SelectFile g \<in> set evs \<and> file_size g \<le> MAX_FILE_SIZE
                      \<and> data_url g = Some img \<and> d = nth_opt (split_on CHR '','' img) 1)"
      by (auto simp: inline_ok_def accepted_def)
  qed
  show ?thesis by (intro conjI 1 2 3)
qed

text \<open>
  C8 at a blank submission, at a file of five megabytes, and at a file of one kilobyte
  that is read and then submitted.
\<close>

theorem rejected_input_and_oversize_file_reach_no_call_witness:
  "step (Submit ''  '' example_client) initial_Page = initial_Page
   \<and> step (SelectFile big_file) initial_Page = initial_Page
   \<and> issued (app (run_events [SelectFile small_file, LoadEnd 0, Submit ''hi'' example_client] initial_Page))
       = replicate NUM_AGENTS
         \<lparr>systemInstruction = INITIAL_SYSTEM_INSTRUCTION, streaming = False,
          contents = [\<lparr>c_role = User,
                       c_parts = [InlineData ''image/png'' (Some ''AAAA''), TextPart ''hi'']\<rparr>]\<rparr>
   \<and> (\<exists>f. SelectFile f \<in> set [SelectFile small_file, LoadEnd 0, Submit ''hi'' example_client]
           \<and> file_size f \<le> MAX_FILE_SIZE \<and> mime_type f = ''image/png'')"
proof -
  let ?evs = "[SelectFile small_file, LoadEnd 0, Submit ''hi'' example_client]"
  let ?call = "\<lparr>systemInstruction = INITIAL_SYSTEM_INSTRUCTION, streaming = False,
          contents = [\<lparr>c_role = User,
                       c_parts = [InlineData ''image/png'' (Some ''AAAA''), TextPart ''hi'']\<rparr>]\<rparr>"
  note t = rejected_input_and_oversize_file_reach_no_call [of "''  ''" initial_Page example_client big_file ?evs]
  have blank: "trim ''  '' = [] \<and> \<not> truthy_str (image (app initial_Page))"
    by (simp add: trim_blank truthy_str_def initial_Page_def initial_App_def)
  have big: "file_size big_file > MAX_FILE_SIZE"
    by (simp add: big_file_def MAX_FILE_SIZE_def)
  have 1: "step (Submit ''  '' example_client) initial_Page = initial_Page"
    using t [THEN conjunct1] blank by blast
  have 2: "step (SelectFile big_file) initial_Page = initial_Page"
    using t [THEN conjunct2, THEN conjunct1] big by blast
  have c: "?call \<in> set (issued (app (run_events ?evs initial_Page)))"
    by (simp add: small_run NUM_AGENTS_def)
  have h: "\<lparr>c_role = User, c_parts = [InlineData ''image/png'' (Some ''AAAA''), TextPart ''hi'']\<rparr>
             \<in> set (contents ?call)" by simp
  have p: "InlineData ''image/png'' (Some ''AAAA'')
             \<in> set (c_parts \<lparr>c_role = User, c_parts = [InlineData ''image/png'' (Some ''AAAA''), TextPart ''hi'']\<rparr>)"
    by simp
  from t [THEN conjunct2, THEN conjunct2, rule_format, OF c h p]
  have 4: "\<exists>f. SelectFile f \<in> set ?evs \<and> file_size f \<le> MAX_FILE_SIZE \<and> mime_type f = ''image/png''"
    by blast
  show ?thesis by (intro conjI 1 2 small_run 4)
qed

text \<open>
  C9. Every call that a run makes, in every state it publishes, carries one content for
  each turn that was in the log before the submission, made of the role and the text
  parts of that turn and nothing else, followed by one user content for the turn in
  flight, which starts with the parts built from the submission. No content of the
  history holds inline data.
\<close>

theorem history_projection_is_role_and_text_only:
  assumes "s \<in> set (snd (handleSubmit mc u a))" "c \<in> set (drop (length (issued a)) (issued s))"
  shows "(\<exists>extra. contents c =
            map (\<lambda>m. \<lparr>c_role = role m, c_parts = map TextPart (parts m)\<rparr>) (messages a)
            @ [\<lparr>c_role = User, c_parts = baseApiParts u a @ extra\<rparr>]
          \<and> (extra = [] \<or> (\<exists>t. extra = [TextPart t])))
    \<and> length (contents c) = length (messages a) + 1
    \<and> (\<forall>h\<in>set (butlast (contents c)). \<forall>p\<in>set (c_parts h). \<exists>t. p = TextPart t)"
proof -
  from new_calls_trace [OF assms(1)] assms(2) have "c \<in> run_calls u a" by blast
  then obtain extra where c: "contents c =
            map (\<lambda>m. \<lparr>c_role = role m, c_parts = map TextPart (parts m)\<rparr>) (messages a)
            @ [\<lparr>c_role = User, c_parts = baseApiParts u a @ extra\<rparr>]"
     and ex: "extra = [] \<or> (\<exists>t. extra = [TextPart t])"
    by (auto simp: run_calls_def)
  have "\<forall>h\<in>set (butlast (contents c)). \<forall>p\<in>set (c_parts h). \<exists>t. p = TextPart t"
    by (auto simp: c)
  moreover have "length (contents c) = length (messages a) + 1" by (simp add: c)
  ultimately show ?thesis using c ex by blast
qed

text \<open>
  C9 at a log whose first turn carries an image and whose second turn carries sources and
  a work trace.
\<close>

theorem history_projection_is_role_and_text_only_witness:
  "st_fan_out ''next'' example_history \<in> set (snd (handleSubmit example_client ''next'' example_history))
   \<and> contents (hd (drop (length (issued example_history))
                      (issued (st_fan_out ''next'' example_history))))
       = [\<lparr>c_role = User, c_parts = [TextPart ''look'']\<rparr>,
          \<lparr>c_role = Model, c_parts = [TextPart ''a cat'']\<rparr>,
          \<lparr>c_role = User, c_parts = [TextPart ''next'']\<rparr>]"
proof -
  let ?c = "initial_call (mainChatHistory (messages (begin_run ''next'' example_history)))
              (baseApiParts ''next'' example_history)"
  have nr: "\<not> rejected_input ''next'' example_history"
    by (simp add: rejected_input_def trim_def is_space_def)
  have ce: "constructor_error example_client = None" by (simp add: example_client_def)
  have s: "st_fan_out ''next'' example_history
             \<in> set (snd (handleSubmit example_client ''next'' example_history))"
    using nr ce by (rule st_fan_out_in_trace)
  have new: "drop (length (issued example_history)) (issued (st_fan_out ''next'' example_history))
               = replicate NUM_AGENTS ?c"
    by (rule new_calls_st_fan_out)
  have c: "?c \<in> set (drop (length (issued example_history)) (issued (st_fan_out ''next'' example_history)))"
    by (simp add: new NUM_AGENTS_def)
  have hd: "hd (drop (length (issued example_history)) (issued (st_fan_out ''next'' example_history))) = ?c"
    by (simp add: new NUM_AGENTS_def numeral_eq_Suc)
  from history_projection_is_role_and_text_only [OF s c] obtain extra where
    "contents ?c = map (\<lambda>m. \<lparr>c_role = role m, c_parts = map TextPart (parts m)\<rparr>) (messages example_history)
                     @ [\<lparr>c_role = User, c_parts = baseApiParts ''next'' example_history @ extra\<rparr>]"
    by blast
  moreover have "last (contents ?c) = \<lparr>c_role = User, c_parts = [TextPart ''next'']\<rparr>"
    by (simp add: initial_call_def baseApiParts_def example_history_def initial_App_def
          trim_def is_space_def)
  ultimately have "contents ?c = [\<lparr>c_role = User, c_parts = [TextPart ''look'']\<rparr>,
          \<lparr>c_role = Model, c_parts = [TextPart ''a cat'']\<rparr>,
          \<lparr>c_role = User, c_parts = [TextPart ''next'']\<rparr>]"
    by (simp add: example_history_def initial_App_def)
  with s hd show ?thesis by simp
qed



end
